theory Spec2Isabelle
  imports Main "HOL-Library.Sublist" "HOL-Library.Log_Nat"
begin

section \<open>Strings\<close>

text \<open>
  A string of the program is a sequence of UTF-16 code units. The embedding covers the strings
  whose code units lie in U+0000 .. U+00FF: a \<^typ>\<open>char\<close> is the code unit with that number.
  On these strings \<open>toLowerCase\<close> works unit by unit and keeps the length: it adds 32 to the
  units of A .. Z and of U+00C0 .. U+00DE other than U+00D7, and leaves the others alone.
  Beyond U+00FF this is no longer so; the section on Greek letters below embeds
  \<open>toLowerCase\<close> and the matcher on wider strings, where the capital sigma is lower-cased
  by its context.
\<close>

definition toLowerCase_char :: "char \<Rightarrow> char" where
  "toLowerCase_char c =
     (let n = (of_char c :: nat)
      in if (65 \<le> n \<and> n \<le> 90) \<or> (192 \<le> n \<and> n \<le> 222 \<and> n \<noteq> 215)
         then char_of (n + 32) else c)"

definition toLowerCase :: "string \<Rightarrow> string" where
  "toLowerCase s = map toLowerCase_char s"

text \<open>
  The white space and line terminators of the language below U+0100, which both \<open>trim\<close> and
  the class \<open>\s\<close> of a regular expression use: TAB, LF, VT, FF, CR, SP and NBSP.
\<close>

definition isSpace :: "char \<Rightarrow> bool" where
  "isSpace c \<longleftrightarrow> (of_char c :: nat) \<in> {9, 10, 11, 12, 13, 32, 160}"

definition isDigit :: "char \<Rightarrow> bool" where
  "isDigit c \<longleftrightarrow> 48 \<le> (of_char c :: nat) \<and> (of_char c :: nat) \<le> 57"

definition trim :: "string \<Rightarrow> string" where
  "trim s = rev (dropWhile isSpace (rev (dropWhile isSpace s)))"

definition startsWith :: "string \<Rightarrow> string \<Rightarrow> bool" where
  "startsWith s p \<longleftrightarrow> take (length p) s = p"

definition slice :: "string \<Rightarrow> nat \<Rightarrow> string" where
  "slice s n = drop n s"

text \<open>The value of a sequence of decimal digits.\<close>

definition digitVal :: "char \<Rightarrow> nat" where
  "digitVal c = of_char c - 48"

definition decimal :: "string \<Rightarrow> nat" where
  "decimal ds = foldl (\<lambda>n c. 10 * n + digitVal c) 0 ds"

text \<open>The decimal numeral of a natural number, as a template literal prints an integer.\<close>

fun numeral_string :: "nat \<Rightarrow> string" where
  "numeral_string n =
     (if n < 10 then [char_of (48 + n)]
      else numeral_string (n div 10) @ [char_of (48 + n mod 10)])"

section \<open>Numbers\<close>

text \<open>
  A number of the program is an IEEE 754 binary64 value. The parser computes no negative
  number and no negative zero, so a number is a non-negative rational, \<open>Infinity\<close> or \<open>NaN\<close>.
  Every arithmetic operator rounds its exact result to the nearest binary64 value, a tie going
  to the even significand; \<open>fl\<close> is that rounding on the non-negative rationals.
\<close>

datatype number = Fin rat | Infinity | NaN

text \<open>The binary exponent of a positive rational \<open>x\<close>: \<open>2 powi binexp x \<le> x < 2 powi (binexp x + 1)\<close>.\<close>

definition binexp :: "rat \<Rightarrow> int" where
  "binexp x = (let (a, b) = quotient_of x; d = bitlen a - bitlen b
               in if 2 powi d \<le> x then d else d - 1)"

definition round_even :: "rat \<Rightarrow> int" where
  "round_even t = (let f = \<lfloor>t\<rfloor>; r = t - of_int f
                   in if r < 1 / 2 then f else if 1 / 2 < r then f + 1
                      else if even f then f else f + 1)"

text \<open>
  A binary64 value has a significand of 53 bits and an exponent of at least \<open>- 1022\<close>; a rounded
  result of \<open>2 ^ 1024\<close> or more is \<open>Infinity\<close>.
\<close>

definition fl :: "rat \<Rightarrow> number" where
  "fl x = (if x = 0 then Fin 0
           else let q = 2 powi (max (binexp x) (- 1022) - 52);
                    r = of_int (round_even (x / q)) * q
                in if 2 ^ 1024 \<le> r then Infinity else Fin r)"

definition representable :: "rat \<Rightarrow> bool" where
  "representable v \<longleftrightarrow> 0 \<le> v \<and> fl v = Fin v"

fun num_times :: "number \<Rightarrow> number \<Rightarrow> number" where
  "num_times (Fin a) (Fin b) = fl (a * b)"
| "num_times (Fin a) Infinity = (if a = 0 then NaN else Infinity)"
| "num_times Infinity (Fin b) = (if b = 0 then NaN else Infinity)"
| "num_times Infinity Infinity = Infinity"
| "num_times _ _ = NaN"

fun num_divide :: "number \<Rightarrow> number \<Rightarrow> number" where
  "num_divide (Fin a) (Fin b) =
     (if b = 0 then (if a = 0 then NaN else Infinity) else fl (a / b))"
| "num_divide (Fin a) Infinity = Fin 0"
| "num_divide Infinity (Fin b) = Infinity"
| "num_divide _ _ = NaN"

fun num_plus :: "number \<Rightarrow> number \<Rightarrow> number" where
  "num_plus (Fin a) (Fin b) = fl (a + b)"
| "num_plus NaN _ = NaN"
| "num_plus _ NaN = NaN"
| "num_plus _ _ = Infinity"

fun num_ge :: "number \<Rightarrow> number \<Rightarrow> bool" where
  "num_ge (Fin a) (Fin b) = (b \<le> a)"
| "num_ge Infinity (Fin b) = True"
| "num_ge Infinity Infinity = True"
| "num_ge _ _ = False"

text \<open>\<open>Math.round\<close> is exact: the integer nearest to its argument, a tie going up.\<close>

fun Math_round :: "number \<Rightarrow> number" where
  "Math_round (Fin a) = Fin (of_int \<lfloor>a + 1 / 2\<rfloor>)"
| "Math_round Infinity = Infinity"
| "Math_round NaN = NaN"

text \<open>
  \<open>parseInt(s, 10)\<close> and \<open>parseFloat(s)\<close> on the strings the parser passes to them, which
  hold digits and at most one point: the longest numeric prefix is read and its exact decimal
  value is rounded to binary64; with no digit to read the result is \<open>NaN\<close>.
\<close>

definition parseInt :: "string \<Rightarrow> number" where
  "parseInt s = (let ds = takeWhile isDigit s
                 in if ds = [] then NaN else fl (of_nat (decimal ds)))"

definition parseFloat :: "string \<Rightarrow> number" where
  "parseFloat s =
     (let ip = takeWhile isDigit s; r = dropWhile isDigit s;
          fp = takeWhile isDigit (tl r)
      in if r \<noteq> [] \<and> hd r = CHR ''.'' \<and> fp \<noteq> []
         then fl (of_nat (decimal ip) + of_nat (decimal fp) / 10 ^ length fp)
         else if ip = [] then NaN else fl (of_nat (decimal ip)))"

section \<open>The duration parser\<close>

definition roundTo15 :: "number \<Rightarrow> number" where
  "roundTo15 minutes = num_times (Math_round (num_divide minutes (Fin 15))) (Fin 15)"

text \<open>
  \<open>formatDuration\<close> on a minute count that is a natural number below \<open>2 ^ 53\<close>, as the
  durations of bookings are: there \<open>Math.floor(minutes / 60)\<close> and \<open>minutes % 60\<close> are the
  integer quotient and remainder, and a template literal prints each as its decimal numeral.
  The values of \<open>2 ^ 53\<close> and more and \<open>Infinity\<close>, which the parser returns for very
  long inputs, are not covered: there the quotient is rounded and the text differs.
\<close>

definition formatDuration :: "nat \<Rightarrow> string" where
  "formatDuration minutes =
     (let hours = minutes div 60; mins = minutes mod 60
      in if hours = 0 then numeral_string mins @ ''m''
         else if mins = 0 then numeral_string hours @ ''h''
         else numeral_string hours @ ''h '' @ numeral_string mins @ ''m'')"

text \<open>
  The five regular expressions of \<open>parseTimeInput\<close>, each as a scanner that returns the
  captured groups of a match of the whole string:
  \<^verbatim>\<open>/^(\d+):(\d{1,2})$/\<close>, \<^verbatim>\<open>/^(\d*\.?\d+)\s*h$/\<close>, \<^verbatim>\<open>/^(\d+)\s*m$/\<close>,
  \<^verbatim>\<open>/^(\d+)$/\<close> and \<^verbatim>\<open>/^(\d*\.\d+)$/\<close>.
\<close>

definition colonMatch :: "string \<Rightarrow> (string \<times> string) option" where
  "colonMatch s =
     (let hs = takeWhile isDigit s; r = dropWhile isDigit s
      in if hs \<noteq> [] \<and> r \<noteq> [] \<and> hd r = CHR '':'' \<and> tl r \<noteq> [] \<and> length (tl r) \<le> 2
            \<and> list_all isDigit (tl r)
         then Some (hs, tl r) else None)"

definition hourMatch :: "string \<Rightarrow> string option" where
  "hourMatch s =
     (let ip = takeWhile isDigit s; r = dropWhile isDigit s;
          fp = takeWhile isDigit (tl r)
      in if r \<noteq> [] \<and> hd r = CHR ''.'' \<and> fp \<noteq> []
         then (if dropWhile isSpace (dropWhile isDigit (tl r)) = ''h''
               then Some (ip @ CHR ''.'' # fp) else None)
         else (if ip \<noteq> [] \<and> dropWhile isSpace r = ''h'' then Some ip else None))"

definition minMatch :: "string \<Rightarrow> string option" where
  "minMatch s =
     (let ds = takeWhile isDigit s; r = dropWhile isDigit s
      in if ds \<noteq> [] \<and> dropWhile isSpace r = ''m'' then Some ds else None)"

definition plainMatch :: "string \<Rightarrow> string option" where
  "plainMatch s = (if s \<noteq> [] \<and> list_all isDigit s then Some s else None)"

definition decimalMatch :: "string \<Rightarrow> string option" where
  "decimalMatch s =
     (let r = dropWhile isDigit s
      in if r \<noteq> [] \<and> hd r = CHR ''.'' \<and> tl r \<noteq> [] \<and> list_all isDigit (tl r)
         then Some s else None)"

definition trimmed :: "string \<Rightarrow> string" where
  "trimmed input = toLowerCase (trim input)"

definition parseTimeInput :: "string \<Rightarrow> number option" where
  "parseTimeInput input =
     (let trimmed = trimmed input
      in if trimmed = [] then None
         else case colonMatch trimmed of
           Some (g1, g2) \<Rightarrow>
             (let hours = parseInt g1; mins = parseInt g2
              in if num_ge mins (Fin 60) then None
                 else Some (roundTo15 (num_plus (num_times hours (Fin 60)) mins)))
         | None \<Rightarrow>
         (case hourMatch trimmed of
           Some g \<Rightarrow> (let hours = parseFloat g in Some (roundTo15 (num_times hours (Fin 60))))
         | None \<Rightarrow>
         (case minMatch trimmed of
           Some g \<Rightarrow> (let mins = parseInt g in Some (roundTo15 mins))
         | None \<Rightarrow>
         (case plainMatch trimmed of
           Some g \<Rightarrow> (let mins = parseInt g in Some (roundTo15 mins))
         | None \<Rightarrow>
         (case decimalMatch trimmed of
           Some g \<Rightarrow> (let hours = parseFloat g in Some (roundTo15 (num_times hours (Fin 60))))
         | None \<Rightarrow> None)))))"

text \<open>The value that \<open>parseTimeInput\<close> hands to \<open>roundTo15\<close>, for stating what the rounding does.\<close>

definition rawMinutes :: "string \<Rightarrow> number option" where
  "rawMinutes input =
     (let trimmed = trimmed input
      in if trimmed = [] then None
         else case colonMatch trimmed of
           Some (g1, g2) \<Rightarrow>
             (if num_ge (parseInt g2) (Fin 60) then None
              else Some (num_plus (num_times (parseInt g1) (Fin 60)) (parseInt g2)))
         | None \<Rightarrow>
         (case hourMatch trimmed of
           Some g \<Rightarrow> Some (num_times (parseFloat g) (Fin 60))
         | None \<Rightarrow>
         (case minMatch trimmed of
           Some g \<Rightarrow> Some (parseInt g)
         | None \<Rightarrow>
         (case plainMatch trimmed of
           Some g \<Rightarrow> Some (parseInt g)
         | None \<Rightarrow>
         (case decimalMatch trimmed of
           Some g \<Rightarrow> Some (num_times (parseFloat g) (Fin 60))
         | None \<Rightarrow> None)))))"

text \<open>The five formats, as the regular expressions describe them.\<close>

definition digits :: "string \<Rightarrow> bool" where
  "digits s \<longleftrightarrow> list_all isDigit s"

definition spaces :: "string \<Rightarrow> bool" where
  "spaces s \<longleftrightarrow> list_all isSpace s"

definition colonForm :: "string \<Rightarrow> string \<Rightarrow> string \<Rightarrow> bool" where
  "colonForm s h m \<longleftrightarrow>
     s = h @ '':'' @ m \<and> h \<noteq> [] \<and> digits h \<and> digits m \<and> 1 \<le> length m \<and> length m \<le> 2"

definition plainForm :: "string \<Rightarrow> bool" where
  "plainForm s \<longleftrightarrow> s \<noteq> [] \<and> digits s"

definition decimalForm :: "string \<Rightarrow> string \<Rightarrow> string \<Rightarrow> bool" where
  "decimalForm s a b \<longleftrightarrow> s = a @ ''.'' @ b \<and> digits a \<and> b \<noteq> [] \<and> digits b"

definition numberForm :: "string \<Rightarrow> bool" where
  "numberForm g \<longleftrightarrow> plainForm g \<or> (\<exists>a b. decimalForm g a b)"

definition hourForm :: "string \<Rightarrow> string \<Rightarrow> string \<Rightarrow> bool" where
  "hourForm s g w \<longleftrightarrow> s = g @ w @ ''h'' \<and> numberForm g \<and> spaces w"

definition minForm :: "string \<Rightarrow> string \<Rightarrow> string \<Rightarrow> bool" where
  "minForm s g w \<longleftrightarrow> s = g @ w @ ''m'' \<and> g \<noteq> [] \<and> digits g \<and> spaces w"

section \<open>The fuzzy matcher and the search select\<close>

function fuzzyLoop :: "'a list \<Rightarrow> 'a list \<Rightarrow> nat \<Rightarrow> nat \<Rightarrow> nat" where
  "fuzzyLoop lowerText lowerQuery i queryIndex =
     (if i < length lowerText \<and> queryIndex < length lowerQuery
      then fuzzyLoop lowerText lowerQuery (i + 1)
             (if lowerText ! i = lowerQuery ! queryIndex then queryIndex + 1 else queryIndex)
      else queryIndex)"
  by pat_completeness auto

termination
  by (relation "measure (\<lambda>(lowerText, lowerQuery, i, queryIndex). length lowerText - i)") auto

declare fuzzyLoop.simps [simp del]

definition fuzzyMatch :: "string \<Rightarrow> string \<Rightarrow> bool" where
  "fuzzyMatch text query =
     (let lowerText = toLowerCase text; lowerQuery = toLowerCase query
      in fuzzyLoop lowerText lowerQuery 0 0 = length lowerQuery)"

definition filteredItems :: "('a \<Rightarrow> string) \<Rightarrow> 'a list \<Rightarrow> string \<Rightarrow> 'a list" where
  "filteredItems getLabel items query =
     (if query \<noteq> [] then filter (\<lambda>item. fuzzyMatch (getLabel item) query) items else items)"

definition suggestion :: "'a list \<Rightarrow> string \<Rightarrow> 'a option" where
  "suggestion filtered query =
     (if query \<noteq> [] \<and> length filtered > 0 then Some (filtered ! 0) else None)"

definition suggestionLabel :: "('a \<Rightarrow> string) \<Rightarrow> 'a option \<Rightarrow> string" where
  "suggestionLabel getLabel sugg = (case sugg of Some item \<Rightarrow> getLabel item | None \<Rightarrow> [])"

definition showInlineSuggestion :: "('a \<Rightarrow> string) \<Rightarrow> 'a option \<Rightarrow> string \<Rightarrow> bool" where
  "showInlineSuggestion getLabel sugg query \<longleftrightarrow>
     sugg \<noteq> None
     \<and> startsWith (toLowerCase (suggestionLabel getLabel sugg)) (toLowerCase query)
     \<and> length query > 0"

text \<open>
  The grey completion text that the component renders behind the input, if any: it is shown
  when \<open>showInlineSuggestion\<close> holds and no item is selected (\<open>value\<close> is null).
\<close>

definition inlineCompletion ::
  "('a \<Rightarrow> string) \<Rightarrow> 'a option \<Rightarrow> string \<Rightarrow> 'a option \<Rightarrow> string option" where
  "inlineCompletion getLabel sugg query val =
     (if showInlineSuggestion getLabel sugg query \<and> val = None
      then Some (slice (suggestionLabel getLabel sugg) (length query)) else None)"

record project =
  ident :: string
  name :: string

definition mockProjects :: "project list" where
  "mockProjects =
     [\<lparr>ident = ''1'', name = ''Anthropic''\<rparr>, \<lparr>ident = ''2'', name = ''Vercel''\<rparr>,
      \<lparr>ident = ''3'', name = ''Stripe''\<rparr>, \<lparr>ident = ''4'', name = ''Linear''\<rparr>,
      \<lparr>ident = ''5'', name = ''Figma''\<rparr>]"

section \<open>Strings with Greek letters\<close>

text \<open>
  The same matcher on strings of UTF-16 code units given by their numbers, for the units
  U+0000 .. U+00FF and the Greek letters U+0391 .. U+03C9. There \<open>toLowerCase\<close> adds 32
  to the units of A .. Z, of U+00C0 .. U+00DE other than U+00D7 and of the Greek capitals
  U+0391 .. U+03AB, with one exception that depends on the context: a capital sigma U+03A3
  becomes the final sigma U+03C2, and not U+03C3, when it is preceded by a cased letter and
  then any number of case-ignorable units, and is not followed by any number of
  case-ignorable units and then a cased letter. A unit outside this range is not covered: the
  definitions leave it unchanged and take it as neither cased nor case-ignorable.
\<close>

definition cased :: "nat \<Rightarrow> bool" where
  "cased c \<longleftrightarrow>
     (0x41 \<le> c \<and> c \<le> 0x5A) \<or> (0x61 \<le> c \<and> c \<le> 0x7A) \<or> c = 0xAA \<or> c = 0xB5 \<or> c = 0xBA
     \<or> (0xC0 \<le> c \<and> c \<le> 0xFF \<and> c \<noteq> 0xD7 \<and> c \<noteq> 0xF7)
     \<or> (0x391 \<le> c \<and> c \<le> 0x3C9 \<and> c \<noteq> 0x3A2)"

definition caseIgnorable :: "nat \<Rightarrow> bool" where
  "caseIgnorable c \<longleftrightarrow>
     c \<in> {0x27, 0x2E, 0x3A, 0x5E, 0x60, 0xA8, 0xAD, 0xAF, 0xB4, 0xB7, 0xB8}"

definition toLowerCase_unit :: "nat \<Rightarrow> nat" where
  "toLowerCase_unit c =
     (if (0x41 \<le> c \<and> c \<le> 0x5A) \<or> (0xC0 \<le> c \<and> c \<le> 0xDE \<and> c \<noteq> 0xD7)
         \<or> (0x391 \<le> c \<and> c \<le> 0x3AB \<and> c \<noteq> 0x3A2)
      then c + 32 else c)"

definition finalSigma :: "nat list \<Rightarrow> nat list \<Rightarrow> bool" where
  "finalSigma seen rest \<longleftrightarrow>
     (case dropWhile caseIgnorable (rev seen) of [] \<Rightarrow> False | c # _ \<Rightarrow> cased c)
     \<and> \<not> (case dropWhile caseIgnorable rest of [] \<Rightarrow> False | c # _ \<Rightarrow> cased c)"

fun toLowerCase_from :: "nat list \<Rightarrow> nat list \<Rightarrow> nat list" where
  "toLowerCase_from seen [] = []"
| "toLowerCase_from seen (c # rest) =
     (if c = 0x3A3 \<and> finalSigma seen rest then 0x3C2 else toLowerCase_unit c)
       # toLowerCase_from (seen @ [c]) rest"

definition toLowerCase_utf16 :: "nat list \<Rightarrow> nat list" where
  "toLowerCase_utf16 s = toLowerCase_from [] s"

definition fuzzyMatch_utf16 :: "nat list \<Rightarrow> nat list \<Rightarrow> bool" where
  "fuzzyMatch_utf16 text query =
     (let lowerText = toLowerCase_utf16 text; lowerQuery = toLowerCase_utf16 query
      in fuzzyLoop lowerText lowerQuery 0 0 = length lowerQuery)"

definition filteredItems_utf16 :: "('a \<Rightarrow> nat list) \<Rightarrow> 'a list \<Rightarrow> nat list \<Rightarrow> 'a list" where
  "filteredItems_utf16 getLabel items query =
     (if query \<noteq> []
      then filter (\<lambda>item. fuzzyMatch_utf16 (getLabel item) query) items else items)"

section \<open>Rounding to binary64\<close>

lemma round_even_of_int: "round_even (of_int n) = n"
  by (simp add: round_even_def)

lemma round_even_err: "\<bar>of_int (round_even t) - t\<bar> \<le> 1 / 2"
proof -
  have "of_int \<lfloor>t\<rfloor> \<le> t" "t < of_int \<lfloor>t\<rfloor> + 1" by linarith+
  then show ?thesis
    by (auto simp: round_even_def Let_def)
qed

lemma round_even_ge: "of_int n \<le> t \<Longrightarrow> n \<le> round_even t"
  using round_even_err [of t] by linarith

lemma round_even_le: "t \<le> of_int n \<Longrightarrow> round_even t \<le> n"
  using round_even_err [of t] by linarith

lemma bitlen_powi_bounds:
  assumes "0 < a"
  shows "2 powi (bitlen a - 1) \<le> (of_int a :: rat)" "(of_int a :: rat) < 2 powi bitlen a"
proof -
  from bitlen_bounds [OF assms]
  have 1: "2 ^ nat (bitlen a - 1) \<le> a" and 2: "a < 2 ^ nat (bitlen a)" by auto
  have pos: "0 < bitlen a"
    using assms bitlen_eq_zero_iff [of a] bitlen_nonneg [of a] by linarith
  have "(of_int (2 ^ nat (bitlen a - 1)) :: rat) \<le> of_int a"
    using 1 by (simp only: of_int_le_iff)
  then show "2 powi (bitlen a - 1) \<le> (of_int a :: rat)"
    using pos by (simp add: power_int_def)
  have "(of_int a :: rat) < of_int (2 ^ nat (bitlen a))"
    using 2 by (simp only: of_int_less_iff)
  then show "(of_int a :: rat) < 2 powi bitlen a"
    using pos by (simp add: power_int_def)
qed

lemma binexp_bounds:
  assumes "0 < x"
  shows "2 powi binexp x \<le> x" "x < 2 powi (binexp x + 1)"
proof -
  obtain a b where q: "quotient_of x = (a, b)" by (cases "quotient_of x")
  then have b: "0 < b" and x: "x = of_int a / of_int b"
    by (auto dest: quotient_of_denom_pos quotient_of_div)
  from assms x b have a: "0 < a" by (simp add: zero_less_divide_iff)
  define d where "d = bitlen a - bitlen b"
  have hi: "x < 2 powi (d + 1)"
  proof -
    have "of_int a < (2::rat) powi bitlen a" by (rule bitlen_powi_bounds [OF a])
    moreover have "(2::rat) powi (bitlen b - 1) \<le> of_int b" by (rule bitlen_powi_bounds [OF b])
    ultimately have "of_int a * 2 powi (bitlen b - 1) < (2::rat) powi bitlen a * of_int b"
      using a b by (intro mult_less_le_imp_less) auto
    then have "x * 2 powi (bitlen b - 1) < (2::rat) powi bitlen a"
      using b by (simp add: x field_simps)
    then have "x < (2::rat) powi bitlen a / 2 powi (bitlen b - 1)"
      by (simp add: field_simps)
    also have "\<dots> = 2 powi (bitlen a - (bitlen b - 1))"
      by (simp add: power_int_diff)
    also have "bitlen a - (bitlen b - 1) = d + 1"
      by (simp add: d_def)
    finally show ?thesis .
  qed
  have lo: "2 powi (d - 1) \<le> x"
  proof -
    have "(2::rat) powi (bitlen a - 1) \<le> of_int a" by (rule bitlen_powi_bounds [OF a])
    moreover have "of_int b < (2::rat) powi bitlen b" by (rule bitlen_powi_bounds [OF b])
    ultimately have "(2::rat) powi (bitlen a - 1) * of_int b \<le> of_int a * 2 powi bitlen b"
      using a b by (intro mult_mono) auto
    then have "(2::rat) powi (bitlen a - 1) \<le> x * 2 powi bitlen b"
      using b by (simp add: x field_simps)
    then have "(2::rat) powi (bitlen a - 1) / 2 powi bitlen b \<le> x"
      by (simp add: field_simps)
    moreover have "(2::rat) powi (bitlen a - 1) / 2 powi bitlen b = 2 powi (bitlen a - 1 - bitlen b)"
      by (simp add: power_int_diff)
    moreover have "bitlen a - 1 - bitlen b = d - 1"
      by (simp add: d_def)
    ultimately show ?thesis by simp
  qed
  have e: "binexp x = (if 2 powi d \<le> x then d else d - 1)"
    by (simp add: binexp_def q d_def)
  show "2 powi binexp x \<le> x" using lo by (simp add: e)
  show "x < 2 powi (binexp x + 1)" using hi by (auto simp: e not_le)
qed

lemma powi2_less_iff: "(2::rat) powi a < 2 powi b \<longleftrightarrow> a < b"
proof
  assume l: "(2::rat) powi a < 2 powi b"
  show "a < b"
  proof (rule ccontr)
    assume "\<not> a < b"
    then have "(2::rat) powi b \<le> 2 powi a" by (intro power_int_increasing) auto
    with l show False by simp
  qed
next
  assume "a < b"
  then show "(2::rat) powi a < 2 powi b" by (intro power_int_strict_increasing) auto
qed

lemma powi2_le_iff: "(2::rat) powi a \<le> 2 powi b \<longleftrightarrow> a \<le> b"
  using powi2_less_iff [of b a] by (auto simp: not_less [symmetric])

lemma binexp_unique:
  assumes "2 powi e \<le> x" "x < 2 powi (e + 1)"
  shows "binexp x = e"
proof -
  have pos: "0 < x" using assms(1) by (rule less_le_trans [rotated]) simp
  note b = binexp_bounds [OF pos]
  have "(2::rat) powi e < 2 powi (binexp x + 1)" using assms(1) b(2) by simp
  then have 1: "e < binexp x + 1" by (simp add: powi2_less_iff)
  have "(2::rat) powi binexp x < 2 powi (e + 1)" using assms(2) b(1) by simp
  then have 2: "binexp x < e + 1" by (simp add: powi2_less_iff)
  from 1 2 show ?thesis by simp
qed


lemma powi2_add: "(2::rat) powi a * 2 powi b = 2 powi (a + b)"
  by (simp add: power_int_add)

lemma powi2_diff: "(2::rat) powi a / 2 powi b = 2 powi (a - b)"
  by (simp add: power_int_diff)

lemma binexp_less: "0 < x \<Longrightarrow> x < 2 powi k \<Longrightarrow> binexp x < k"
  using binexp_bounds(1) [of x] powi2_less_iff [of "binexp x" k] by simp

lemma binexp_ge: "2 powi k \<le> x \<Longrightarrow> k \<le> binexp x"
proof -
  assume a: "2 powi k \<le> x"
  have "(0::rat) < 2 powi k" by simp
  with a have pos: "0 < x" by linarith
  from a binexp_bounds(2) [OF pos] have "(2::rat) powi k < 2 powi (binexp x + 1)" by simp
  then show ?thesis by (simp add: powi2_less_iff)
qed

lemma fl_pos:
  assumes "0 < x"
  shows "fl x = (let q = 2 powi (max (binexp x) (- 1022) - 52);
                     r = of_int (round_even (x / q)) * q
                 in if 2 ^ 1024 \<le> r then Infinity else Fin r)"
  using assms by (simp add: fl_def)

lemma fl_grid:
  assumes pos: "0 < x" and x: "x = of_int n * 2 powi g"
    and g: "- 1074 \<le> g" "binexp x - 52 \<le> g" and fin: "x < 2 ^ 1024"
  shows "fl x = Fin x"
proof -
  define p where "p = max (binexp x) (- 1022) - 52"
  have pg: "p \<le> g" using g by (simp add: p_def)
  have "x / 2 powi p = of_int n * (2 powi g / 2 powi p)" by (simp add: x)
  also have "2 powi g / 2 powi p = (2::rat) powi (g - p)" by (simp add: power_int_diff)
  also have "\<dots> = 2 ^ nat (g - p)" using pg by (simp add: power_int_def)
  finally have "x / 2 powi p = of_int (n * 2 ^ nat (g - p))" by simp
  then have "round_even (x / 2 powi p) = n * 2 ^ nat (g - p)"
    by (simp only: round_even_of_int)
  then have "of_int (round_even (x / 2 powi p)) * 2 powi p = x / 2 powi p * 2 powi p"
    using \<open>x / 2 powi p = of_int (n * 2 ^ nat (g - p))\<close> by simp
  also have "\<dots> = x" by simp
  finally have r: "of_int (round_even (x / 2 powi p)) * 2 powi p = x" .
  show ?thesis
    using fin by (simp only: fl_pos [OF pos] p_def [symmetric] Let_def r) simp
qed

lemma fl_of_nat:
  assumes "n < 2 ^ 53"
  shows "fl (of_nat n) = Fin (of_nat n)"
proof (cases "n = 0")
  case True
  then show ?thesis by (simp add: fl_def)
next
  case False
  then have pos: "(0::rat) < of_nat n" by simp
  have "(of_nat n :: rat) < of_nat (2 ^ 53)" using assms by (simp only: of_nat_less_iff)
  then have lt: "(of_nat n :: rat) < 2 powi 53" by simp
  then have e: "binexp (of_nat n) < 53" using pos by (rule binexp_less [rotated])
  have "(of_nat n :: rat) < 2 ^ 1024" using lt by simp
  then show ?thesis
    using e by (intro fl_grid [OF pos, where n = "int n" and g = 0]) auto
qed

lemma fl_half:
  assumes "0 \<le> n" "n < 2 ^ 53"
  shows "fl (of_int n / 2) = Fin (of_int n / 2)"
proof (cases "n = 0")
  case True
  then show ?thesis by (simp add: fl_def)
next
  case False
  with assms have pos: "(0::rat) < of_int n / 2" by simp
  have "(of_int n :: rat) < of_int (2 ^ 53)" using assms by (simp only: of_int_less_iff)
  then have lt: "(of_int n / 2 :: rat) < 2 powi 52" by simp
  then have e: "binexp (of_int n / 2) < 52" using pos by (rule binexp_less [rotated])
  have "(of_int n / 2 :: rat) < 2 ^ 1024" using lt by simp
  then show ?thesis
    using e by (intro fl_grid [OF pos, where n = n and g = "- 1"]) (auto simp: power_int_minus)
qed


lemma fl_mantissa:
  assumes pos: "0 < x"
  defines "p \<equiv> max (binexp x) (- 1022) - 52"
  defines "m \<equiv> round_even (x / 2 powi p)"
  shows "0 \<le> m" "m \<le> 2 ^ 53" "- 1022 \<le> binexp x \<Longrightarrow> 2 ^ 52 \<le> m"
    "\<bar>of_int m * 2 powi p - x\<bar> \<le> 2 powi (p - 1)"
proof -
  have q: "(0::rat) < 2 powi p" by simp
  have "0 \<le> x / 2 powi p" using pos by simp
  then show "0 \<le> m" unfolding m_def by (intro round_even_ge) simp
  have "x < 2 powi (binexp x + 1)" by (rule binexp_bounds [OF pos])
  also have "\<dots> \<le> 2 powi (p + 53)" by (simp add: powi2_le_iff p_def)
  also have "\<dots> = 2 powi p * 2 ^ 53" by (simp add: power_int_add)
  finally have "x / 2 powi p < 2 ^ 53" by (simp add: field_simps)
  then have "x / 2 powi p \<le> of_int (2 ^ 53)" by simp
  then show "m \<le> 2 ^ 53" unfolding m_def by (rule round_even_le)
  have "\<bar>of_int m - x / 2 powi p\<bar> \<le> 1 / 2" unfolding m_def by (rule round_even_err)
  then have "\<bar>of_int m - x / 2 powi p\<bar> * 2 powi p \<le> 1 / 2 * 2 powi p"
    by (intro mult_right_mono) auto
  moreover have "\<bar>of_int m - x / 2 powi p\<bar> * 2 powi p = \<bar>of_int m * 2 powi p - x\<bar>"
  proof -
    have "\<bar>of_int m - x / 2 powi p\<bar> * 2 powi p = \<bar>(of_int m - x / 2 powi p) * 2 powi p\<bar>"
      by (simp add: abs_mult)
    also have "(of_int m - x / 2 powi p) * 2 powi p = of_int m * 2 powi p - x"
      by (simp add: left_diff_distrib)
    finally show ?thesis .
  qed
  moreover have "1 / 2 * (2::rat) powi p = 2 powi (p - 1)"
    by (simp add: power_int_diff)
  ultimately show "\<bar>of_int m * 2 powi p - x\<bar> \<le> 2 powi (p - 1)" by simp
  show "2 ^ 52 \<le> m" if n: "- 1022 \<le> binexp x"
  proof -
    from n have p: "p = binexp x - 52" by (simp add: p_def)
    have "2 powi (p + 52) \<le> x" using binexp_bounds(1) [OF pos] by (simp add: p)
    moreover have "(2::rat) powi (p + 52) = 2 powi p * 2 ^ 52" by (simp add: power_int_add)
    ultimately have "2 ^ 52 \<le> x / 2 powi p" by (simp add: field_simps)
    then have "of_int (2 ^ 52) \<le> x / 2 powi p" by simp
    then show ?thesis unfolding m_def by (rule round_even_ge)
  qed
qed

lemma fl_finite:
  assumes pos: "0 < x" and lt: "x < 2 ^ 1023"
  shows "fl x = Fin (of_int (round_even (x / 2 powi (max (binexp x) (- 1022) - 52)))
                  * 2 powi (max (binexp x) (- 1022) - 52))"
proof -
  define p where "p = max (binexp x) (- 1022) - 52"
  define m where "m = round_even (x / 2 powi p)"
  have "x < 2 powi 1023" using lt by simp
  then have "binexp x < 1023" using pos by (rule binexp_less [rotated])
  then have p: "p \<le> 970" by (simp add: p_def)
  have "m \<le> 2 ^ 53" unfolding m_def p_def by (rule fl_mantissa [OF pos])
  then have "(of_int m :: rat) \<le> of_int (2 ^ 53)" by (simp only: of_int_le_iff)
  then have "of_int m * (2::rat) powi p \<le> 2 ^ 53 * 2 powi p"
    by (intro mult_right_mono) auto
  also have "\<dots> = 2 powi (p + 53)" by (simp add: power_int_add)
  also have "\<dots> \<le> 2 powi 1023" using p by (simp only: powi2_le_iff)
  also have "\<dots> < 2 ^ 1024" by simp
  finally have "\<not> 2 ^ 1024 \<le> of_int m * (2::rat) powi p" by simp
  then show ?thesis
    by (simp only: fl_pos [OF pos] p_def [symmetric] m_def [symmetric] Let_def if_False)
qed

lemma fl_ge:
  assumes x: "2 powi j \<le> x" and j: "- 1022 \<le> j" and r: "fl x = Fin r"
  shows "2 powi j \<le> r"
proof -
  have "(0::rat) < 2 powi j" by simp
  with x have pos: "0 < x" by linarith
  define p where "p = max (binexp x) (- 1022) - 52"
  define m where "m = round_even (x / 2 powi p)"
  have e: "j \<le> binexp x" using x by (rule binexp_ge)
  with j have n: "- 1022 \<le> binexp x" by simp
  then have p: "p = binexp x - 52" by (simp add: p_def)
  have "fl x = (if 2 ^ 1024 \<le> of_int m * (2::rat) powi p then Infinity
                else Fin (of_int m * 2 powi p))"
    by (simp only: fl_pos [OF pos] p_def [symmetric] m_def [symmetric] Let_def)
  with r have rm: "r = of_int m * 2 powi p" by (simp split: if_splits)
  have "2 ^ 52 \<le> m" unfolding m_def p_def using n by (rule fl_mantissa [OF pos])
  then have m: "(of_int (2 ^ 52) :: rat) \<le> of_int m" by (simp only: of_int_le_iff)
  have "(2::rat) powi j \<le> 2 powi (p + 52)" using e by (simp add: powi2_le_iff p)
  also have "\<dots> = of_int (2 ^ 52) * 2 powi p" by (simp add: power_int_add)
  also have "\<dots> \<le> of_int m * 2 powi p" using m by (intro mult_right_mono) auto
  finally show ?thesis by (simp only: rm)
qed

lemma fl_nonneg:
  assumes "0 \<le> x" "fl x = Fin r"
  shows "0 \<le> r"
proof (cases "x = 0")
  case True
  with assms show ?thesis by (simp add: fl_def)
next
  case False
  with assms have pos: "0 < x" by simp
  define p where "p = max (binexp x) (- 1022) - 52"
  define m where "m = round_even (x / 2 powi p)"
  have "fl x = (if 2 ^ 1024 \<le> of_int m * (2::rat) powi p then Infinity
                else Fin (of_int m * 2 powi p))"
    by (simp only: fl_pos [OF pos] p_def [symmetric] m_def [symmetric] Let_def)
  with assms have rm: "r = of_int m * 2 powi p" by (simp split: if_splits)
  have "0 \<le> m" unfolding m_def p_def by (rule fl_mantissa [OF pos])
  then show ?thesis by (simp add: rm)
qed


lemma fl_err:
  assumes pos: "0 < x" and lt: "x < 2 ^ 1023"
  obtains r where "fl x = Fin r" "\<bar>r - x\<bar> \<le> 2 powi (max (binexp x) (- 1022) - 53)"
proof -
  define p where "p = max (binexp x) (- 1022) - 52"
  define m where "m = round_even (x / 2 powi p)"
  have 1: "fl x = Fin (of_int m * 2 powi p)"
    unfolding m_def p_def using pos lt by (rule fl_finite)
  have "\<bar>of_int m * 2 powi p - x\<bar> \<le> 2 powi (p - 1)"
    unfolding m_def p_def by (rule fl_mantissa [OF pos])
  moreover have "p - 1 = max (binexp x) (- 1022) - 53" by (simp add: p_def)
  ultimately have 2: "\<bar>of_int m * 2 powi p - x\<bar> \<le> 2 powi (max (binexp x) (- 1022) - 53)"
    by simp
  from 1 2 show ?thesis by (rule that)
qed

lemma double_grid:
  assumes pos: "0 < v" and lt: "v < 2 ^ 1023" and d: "fl v = Fin v"
  shows "\<exists>n. v = of_int n * 2 powi (max (binexp v) (- 1022) - 52)"
  using fl_finite [OF pos lt] d by auto

lemma fl_idem:
  assumes x: "0 \<le> x" and r: "fl x = Fin r"
  shows "fl r = Fin r"
proof (cases "x = 0")
  case True
  with r show ?thesis by (simp add: fl_def)
next
  case False
  with x have pos: "0 < x" by simp
  define p where "p = max (binexp x) (- 1022) - 52"
  define m where "m = round_even (x / 2 powi p)"
  have "fl x = (if 2 ^ 1024 \<le> of_int m * (2::rat) powi p then Infinity
                else Fin (of_int m * 2 powi p))"
    by (simp only: fl_pos [OF pos] p_def [symmetric] m_def [symmetric] Let_def)
  with r have rm: "r = of_int m * 2 powi p" and fin: "r < 2 ^ 1024"
    by (simp_all split: if_splits)
  have m0: "0 \<le> m" and m53: "m \<le> 2 ^ 53"
    unfolding m_def p_def by (rule fl_mantissa [OF pos])+
  have p: "- 1074 \<le> p" by (simp add: p_def)
  show ?thesis
  proof (cases "m = 0")
    case True
    then show ?thesis by (simp add: rm fl_def)
  next
    case False
    with m0 have "0 < m" by simp
    then have rpos: "0 < r" by (simp add: rm)
    show ?thesis
    proof (cases "m = 2 ^ 53")
      case True
      then have "r = 2 ^ 53 * 2 powi p" by (simp add: rm)
      then have r2: "r = 2 powi (p + 53)" by (simp add: power_int_add)
      then have "binexp r = p + 53" by (intro binexp_unique) (simp_all add: powi2_less_iff)
      then show ?thesis
        using p r2 fin by (intro fl_grid [OF rpos, where n = 1 and g = "p + 53"]) auto
    next
      case False
      with m53 have "m < 2 ^ 53" by simp
      then have "(of_int m :: rat) < of_int (2 ^ 53)" by (simp only: of_int_less_iff)
      then have "of_int m * (2::rat) powi p < of_int (2 ^ 53) * 2 powi p"
        by (intro mult_strict_right_mono) auto
      also have "\<dots> = 2 powi (p + 53)" by (simp add: power_int_add)
      finally have "r < 2 powi (p + 53)" by (simp only: rm)
      then have "binexp r < p + 53" using rpos by (rule binexp_less [rotated])
      then show ?thesis
        using p rm fin by (intro fl_grid [OF rpos, where n = m and g = p]) auto
    qed
  qed
qed


lemma half_separation:
  assumes d: "fl v = Fin v" and v1: "1 \<le> v" and v52: "v < 2 ^ 52"
    and fy: "fl (v / 15) = Fin fy"
  shows "v / 15 < of_int j + 1 / 2 \<Longrightarrow> fy < of_int j + 1 / 2"
    and "of_int j + 1 / 2 < v / 15 \<Longrightarrow> of_int j + 1 / 2 < fy"
proof -
  have pos: "0 < v" using v1 by simp
  have lt: "v < 2 ^ 1023" using v52 by simp
  define ev where "ev = binexp v"
  have "2 powi 0 \<le> v" using v1 by simp
  then have ev0: "0 \<le> ev" unfolding ev_def by (rule binexp_ge)
  have "v < 2 powi 52" using v52 by simp
  then have ev52: "ev < 52" unfolding ev_def using pos by (rule binexp_less [rotated])
  define g :: rat where "g = 2 powi (ev - 52)"
  have gpos: "0 < g" by (simp add: g_def)
  have mx: "max (binexp v) (- 1022) - 52 = ev - 52" using ev0 by (simp add: ev_def)
  from double_grid [OF pos lt d] obtain n where n: "v = of_int n * g"
    by (auto simp: mx g_def)
  \<comment> \<open>the half-integer multiples of 15 lie on the grid of v\<close>
  have "(of_int (2 ^ nat (51 - ev)) :: rat) = 2 powi (51 - ev)"
    using ev52 by (simp add: power_int_def)
  then have "(of_int (2 ^ nat (51 - ev)) :: rat) * g = 2 powi (51 - ev) * 2 powi (ev - 52)"
    by (simp only: g_def)
  also have "\<dots> = 2 powi (51 - ev + (ev - 52))" by (rule powi2_add)
  also have "51 - ev + (ev - 52) = - 1" by simp
  finally have h: "(of_int (2 ^ nat (51 - ev)) :: rat) * g = 1 / 2" by (simp add: power_int_minus)
  have "of_int ((30 * j + 15) * 2 ^ nat (51 - ev)) * g
      = of_int (30 * j + 15) * (of_int (2 ^ nat (51 - ev)) * g)"
    by (simp only: of_int_mult mult.assoc)
  also have "\<dots> = of_int (30 * j + 15) * (1 / 2)" by (simp only: h)
  also have "\<dots> = 15 * (of_int j + 1 / 2)" by simp
  finally have T: "(15 * (of_int j + 1 / 2) :: rat) = of_int ((30 * j + 15) * 2 ^ nat (51 - ev)) * g"
    by (rule sym)
  define N where "N = (30 * j + 15) * 2 ^ nat (51 - ev) - n"
  have diff: "15 * (of_int j + 1 / 2) - v = of_int N * g"
  proof -
    have "of_int N * g = of_int ((30 * j + 15) * 2 ^ nat (51 - ev)) * g - of_int n * g"
      by (simp only: N_def of_int_diff left_diff_distrib)
    then show ?thesis by (simp only: T [symmetric] n [symmetric])
  qed
  \<comment> \<open>the rounding error of the quotient is below a sixteenth of the grid step\<close>
  define y where "y = v / 15"
  have ypos: "0 < y" using pos by (simp add: y_def)
  have ylt: "y < 2 ^ 1023" using lt pos by (simp add: y_def)
  have "2 powi (- 4) \<le> y" using v1 by (simp add: y_def power_int_minus)
  then have ey4: "- 4 \<le> binexp y" by (rule binexp_ge)
  have "v < 2 powi (ev + 1)" unfolding ev_def by (rule binexp_bounds [OF pos])
  then have "y < 2 powi (ev + 1) / 15" by (simp add: y_def)
  also have "\<dots> < 2 powi (ev + 1) / 8" by (simp add: frac_less2)
  also have "\<dots> = 2 powi (ev - 2)"
  proof -
    have "(2::rat) powi (ev + 1) / 8 = 2 powi (ev + 1) / 2 powi 3" by simp
    also have "\<dots> = 2 powi (ev + 1 - 3)" by (rule powi2_diff)
    also have "ev + 1 - 3 = ev - 2" by simp
    finally show ?thesis .
  qed
  finally have "binexp y < ev - 2" using ypos by (intro binexp_less)
  then have "max (binexp y) (- 1022) - 53 \<le> ev - 56" using ey4 by simp
  then have "(2::rat) powi (max (binexp y) (- 1022) - 53) \<le> 2 powi (ev - 56)"
    by (simp only: powi2_le_iff)
  also have "(2::rat) powi (ev - 56) = g / 16"
  proof -
    have "g / 16 = 2 powi (ev - 52) / 2 powi 4" by (simp add: g_def)
    also have "\<dots> = 2 powi (ev - 52 - 4)" by (rule powi2_diff)
    also have "ev - 52 - 4 = ev - 56" by simp
    finally show ?thesis by (rule sym)
  qed
  finally have eb: "(2::rat) powi (max (binexp y) (- 1022) - 53) \<le> g / 16" .
  from fl_err [OF ypos ylt] fy have err: "\<bar>fy - y\<bar> \<le> g / 16"
    using eb by (metis y_def number.inject order_trans)
  show "fy < of_int j + 1 / 2" if a: "v / 15 < of_int j + 1 / 2"
  proof -
    from a have "0 < 15 * (of_int j + 1 / 2) - v" by simp
    then have "0 < of_int N * g" by (simp only: diff)
    then have "0 < N" using gpos by (simp add: zero_less_mult_iff)
    then have "(1::rat) \<le> of_int N" by simp
    then have "1 * g \<le> of_int N * g" using gpos by (intro mult_right_mono) auto
    then have "g \<le> 15 * (of_int j + 1 / 2) - v" by (simp only: diff mult_1)
    then have "g / 15 \<le> (of_int j + 1 / 2) - y" by (simp add: y_def field_simps)
    moreover have "g / 16 < g / 15" using gpos by (simp add: frac_less2)
    ultimately show ?thesis using err by linarith
  qed
  show "of_int j + 1 / 2 < fy" if a: "of_int j + 1 / 2 < v / 15"
  proof -
    from a have "15 * (of_int j + 1 / 2) - v < 0" by simp
    then have "of_int N * g < 0" by (simp only: diff)
    then have "N < 0" using gpos by (simp add: mult_less_0_iff)
    then have "N \<le> - 1" by simp
    then have "(of_int N :: rat) \<le> of_int (- 1)" by (simp only: of_int_le_iff)
    then have "of_int N \<le> (- 1::rat)" by simp
    then have "of_int N * g \<le> - 1 * g" using gpos by (intro mult_right_mono) auto
    then have "15 * (of_int j + 1 / 2) - v \<le> - g" by (simp only: diff mult_minus1)
    then have "g / 15 \<le> y - (of_int j + 1 / 2)" by (simp add: y_def field_simps)
    moreover have "g / 16 < g / 15" using gpos by (simp add: frac_less2)
    ultimately show ?thesis using err by linarith
  qed
qed

lemma representable_of_nat: "n < 2 ^ 53 \<Longrightarrow> representable (of_nat n)"
  by (simp add: representable_def fl_of_nat)

lemma representable_fl: "0 \<le> x \<Longrightarrow> fl x = Fin r \<Longrightarrow> representable r"
  unfolding representable_def using fl_idem [of x r] fl_nonneg [of x r] by blast

lemma fl_of_int_times_15:
  assumes "0 \<le> k" "k * 15 < 2 ^ 53"
  shows "fl (of_int k * 15) = Fin (15 * of_int k)"
proof -
  have "nat (k * 15) < 2 ^ 53" using assms by (simp add: nat_less_iff)
  then have "fl (of_nat (nat (k * 15))) = Fin (of_nat (nat (k * 15)))" by (rule fl_of_nat)
  moreover have "(of_nat (nat (k * 15)) :: rat) = of_int (k * 15)"
    using assms(1) by (simp only: of_nat_nat)
  ultimately show ?thesis by (simp add: mult.commute)
qed

lemma round_quotient:
  assumes r: "representable v" and v52: "v < 2 ^ 52"
  obtains fy where "fl (v / 15) = Fin fy" "\<lfloor>fy + 1 / 2\<rfloor> = \<lfloor>v / 15 + 1 / 2\<rfloor>"
proof -
  from r have v0: "0 \<le> v" and d: "fl v = Fin v" by (simp_all add: representable_def)
  define y where "y = v / 15"
  define k where "k = \<lfloor>y + 1 / 2\<rfloor>"
  have k1: "of_int k \<le> y + 1 / 2" and k2: "y + 1 / 2 < of_int k + 1"
    unfolding k_def by linarith+
  have "\<exists>fy. fl y = Fin fy \<and> \<lfloor>fy + 1 / 2\<rfloor> = k"
  proof (cases "v = 0")
    case True
    then show ?thesis by (simp add: y_def k_def fl_def)
  next
    case False
    with v0 have pos: "0 < v" by simp
    then have ypos: "0 < y" by (simp add: y_def)
    have yv: "y \<le> v" using pos by (simp add: y_def)
    have "v < 2 ^ 1023" using v52 by simp
    with yv have ylt: "y < 2 ^ 1023" by (rule le_less_trans)
    from fl_err [OF ypos ylt] obtain fy
      where fy: "fl y = Fin fy" and err: "\<bar>fy - y\<bar> \<le> 2 powi (max (binexp y) (- 1022) - 53)"
      by blast
    show ?thesis
    proof (cases "v < 1")
      case True
      then have y8: "y < 1 / 8" by (simp add: y_def)
      then have "y < 2 powi (- 3)" by (simp add: power_int_minus)
      then have "binexp y < - 3" using ypos by (intro binexp_less)
      then have "max (binexp y) (- 1022) - 53 \<le> - 3" by simp
      then have "(2::rat) powi (max (binexp y) (- 1022) - 53) \<le> 2 powi (- 3)"
        by (simp only: powi2_le_iff)
      also have "(2::rat) powi (- 3) = 1 / 8" by (simp add: power_int_minus)
      finally have "\<bar>fy - y\<bar> \<le> 1 / 8" using err by simp
      with y8 ypos have "0 \<le> fy + 1 / 2" "fy + 1 / 2 < 1" by linarith+
      then have "\<lfloor>fy + 1 / 2\<rfloor> = 0" by (simp add: floor_unique)
      moreover have "k = 0" unfolding k_def using y8 ypos by (intro floor_unique) auto
      ultimately show ?thesis using fy by simp
    next
      case False
      then have v1: "1 \<le> v" by simp
      note sep = half_separation [OF d v1 v52 fy [unfolded y_def]]
      have "y < of_int k + 1 / 2" using k2 by simp
      then have up: "fy < of_int k + 1 / 2" unfolding y_def by (rule sep(1))
      have lo: "of_int (k - 1) + 1 / 2 \<le> fy"
      proof (cases "of_int (k - 1) + 1 / 2 = y")
        case True
        then have yk: "y = of_int (2 * k - 1) / 2" by simp
        have kpos: "0 \<le> 2 * k - 1"
        proof -
          have "0 < (of_int (2 * k - 1) :: rat)" using ypos yk by simp
          then show ?thesis by simp
        qed
        from yk have "(of_int (2 * k - 1) :: rat) = 2 * y" by simp
        with yv v52 have "(of_int (2 * k - 1) :: rat) < 2 ^ 53" by simp
        then have "(of_int (2 * k - 1) :: rat) < of_int (2 ^ 53)" by simp
        then have "2 * k - 1 < 2 ^ 53" by (simp only: of_int_less_iff)
        from fl_half [OF kpos this] fy have "fy = y" by (simp add: yk)
        with True show ?thesis by simp
      next
        case False
        with k1 have "of_int (k - 1) + 1 / 2 < y" by simp
        then have "of_int (k - 1) + 1 / 2 < fy" unfolding y_def by (rule sep(2))
        then show ?thesis by simp
      qed
      have "\<lfloor>fy + 1 / 2\<rfloor> = k" using lo up by (intro floor_unique) auto
      with fy show ?thesis by simp
    qed
  qed
  then show ?thesis using that by (auto simp: y_def k_def)
qed

lemma roundTo15_exact:
  assumes r: "representable v" and v52: "v < 2 ^ 52"
  shows "roundTo15 (Fin v) = Fin (15 * of_int \<lfloor>v / 15 + 1 / 2\<rfloor>)"
proof -
  from r have v0: "0 \<le> v" by (simp add: representable_def)
  define k where "k = \<lfloor>v / 15 + 1 / 2\<rfloor>"
  from round_quotient [OF r v52] obtain fy
    where fy: "fl (v / 15) = Fin fy" and fk: "\<lfloor>fy + 1 / 2\<rfloor> = k"
    unfolding k_def by blast
  have "0 \<le> v / 15 + 1 / 2" using v0 by simp
  then have k0: "0 \<le> k" unfolding k_def by simp
  have "of_int k \<le> v / 15 + 1 / 2" unfolding k_def by linarith
  then have "of_int k * 15 \<le> v + 15 / 2" by (simp add: field_simps)
  then have "(of_int (k * 15) :: rat) < of_int (2 ^ 53)" using v52 by simp
  then have k53: "k * 15 < 2 ^ 53" by (simp only: of_int_less_iff)
  have "roundTo15 (Fin v) = fl (of_int k * 15)"
    by (simp add: roundTo15_def fy fk)
  also have "\<dots> = Fin (15 * of_int k)" using k0 k53 by (rule fl_of_int_times_15)
  finally show ?thesis by (simp only: k_def)
qed

lemma roundTo15_multiple:
  assumes res: "roundTo15 w = Fin r" and r53: "r < 2 ^ 53" and nn: "\<And>v. w = Fin v \<Longrightarrow> 0 \<le> v"
  shows "\<exists>k::nat. r = 15 * of_nat k"
proof (cases w)
  case (Fin v)
  then have v0: "0 \<le> v" by (rule nn)
  then have y0: "0 \<le> v / 15" by simp
  from res Fin obtain fy where fy: "fl (v / 15) = Fin fy"
    by (cases "fl (v / 15)") (simp_all add: roundTo15_def)
  have f0: "0 \<le> fy" using y0 fy by (rule fl_nonneg)
  define k where "k = \<lfloor>fy + 1 / 2\<rfloor>"
  have k0: "0 \<le> k" unfolding k_def using f0 by simp
  have "roundTo15 w = fl (of_int k * 15)"
    by (simp add: roundTo15_def Fin fy k_def)
  with res have rk: "fl (of_int k * 15) = Fin r" by simp
  have k53: "k * 15 < 2 ^ 53"
  proof (rule ccontr)
    assume "\<not> k * 15 < 2 ^ 53"
    then have "2 ^ 53 \<le> k * 15" by simp
    then have "(of_int (2 ^ 53) :: rat) \<le> of_int (k * 15)" by (simp only: of_int_le_iff)
    then have a: "2 powi 53 \<le> (of_int k * 15 :: rat)" by simp
    have b: "- 1022 \<le> (53::int)" by simp
    from a b rk have "2 powi 53 \<le> r" by (rule fl_ge)
    with r53 show False by simp
  qed
  have "fl (of_int k * 15) = Fin (15 * of_int k)" using k0 k53 by (rule fl_of_int_times_15)
  with rk have "Fin r = Fin (15 * of_int k)" by (rule trans [OF sym])
  then have "r = 15 * of_int k" by (simp only: number.inject)
  also have "(of_int k :: rat) = of_nat (nat k)" using k0 by simp
  finally show ?thesis ..
next
  case Infinity
  with res show ?thesis by (simp add: roundTo15_def)
next
  case NaN
  with res show ?thesis by (simp add: roundTo15_def)
qed

section \<open>The regular expressions\<close>

lemma isDigit_not_isSpace: "isDigit c \<Longrightarrow> \<not> isSpace c"
  by (auto simp: isDigit_def isSpace_def)

lemma not_isDigit_chars [simp]:
  "\<not> isDigit CHR '':''" "\<not> isDigit CHR ''.''" "\<not> isDigit CHR ''h''" "\<not> isDigit CHR ''m''"
  by (simp_all add: isDigit_def)

lemma not_isSpace_chars [simp]:
  "\<not> isSpace CHR '':''" "\<not> isSpace CHR ''.''" "\<not> isSpace CHR ''h''" "\<not> isSpace CHR ''m''"
  by (simp_all add: isSpace_def)

lemma takeWhile_span:
  assumes "list_all P a" "r = [] \<or> \<not> P (hd r)"
  shows "takeWhile P (a @ r) = a" "dropWhile P (a @ r) = r"
proof -
  have a: "\<forall>x \<in> set a. P x" using assms(1) by (simp add: list_all_iff)
  have r: "takeWhile P r = []" "dropWhile P r = r" using assms(2) by (cases r; simp)+
  show "takeWhile P (a @ r) = a" using a r by (simp add: takeWhile_append2)
  show "dropWhile P (a @ r) = r" using a r by (simp add: dropWhile_append2)
qed

lemma span_parts:
  "s = takeWhile P s @ dropWhile P s" "list_all P (takeWhile P s)"
  "dropWhile P s = [] \<or> \<not> P (hd (dropWhile P s))"
proof -
  show "s = takeWhile P s @ dropWhile P s" by simp
  show "list_all P (takeWhile P s)" by (simp add: list_all_iff) (meson set_takeWhileD)
  show "dropWhile P s = [] \<or> \<not> P (hd (dropWhile P s))" using hd_dropWhile [of P s] by blast
qed

lemma colonMatch_iff: "colonMatch s = Some (h, m) \<longleftrightarrow> colonForm s h m"
proof
  assume "colonMatch s = Some (h, m)"
  then have h: "h = takeWhile isDigit s" and ne: "h \<noteq> []" "dropWhile isDigit s \<noteq> []"
    and c: "hd (dropWhile isDigit s) = CHR '':''" and m: "m = tl (dropWhile isDigit s)"
    and mm: "m \<noteq> []" "length m \<le> 2" "list_all isDigit m"
    by (auto simp: colonMatch_def Let_def split: if_splits)
  from ne(2) c m have "dropWhile isDigit s = CHR '':'' # m" by (cases "dropWhile isDigit s") auto
  with span_parts(1) [of s isDigit] h have "s = h @ '':'' @ m" by simp
  moreover have "digits h" unfolding h digits_def by (rule span_parts)
  moreover have "1 \<le> length m" using mm(1) by (cases m) auto
  ultimately show "colonForm s h m" using ne mm by (simp add: colonForm_def digits_def)
next
  assume "colonForm s h m"
  then have s: "s = h @ (CHR '':'' # m)" and h: "h \<noteq> []" "list_all isDigit h"
    and m: "list_all isDigit m" "1 \<le> length m" "length m \<le> 2"
    by (simp_all add: colonForm_def digits_def)
  have t: "takeWhile isDigit s = h" "dropWhile isDigit s = CHR '':'' # m"
    unfolding s using h(2) by (rule takeWhile_span; simp)+
  have "m \<noteq> []" using m(2) by auto
  then show "colonMatch s = Some (h, m)" using h m by (simp add: colonMatch_def t)
qed

lemma suffix_span:
  assumes "spaces w" "\<not> isSpace c"
  shows "dropWhile isSpace (w @ [c]) = [c]"
  using assms unfolding spaces_def by (intro takeWhile_span) auto

lemma suffix_parts:
  assumes "dropWhile isSpace r = [c]"
  shows "r = takeWhile isSpace r @ [c]" "spaces (takeWhile isSpace r)"
proof -
  show "r = takeWhile isSpace r @ [c]" using span_parts(1) [of r isSpace] assms by simp
  show "spaces (takeWhile isSpace r)" unfolding spaces_def by (rule span_parts)
qed

lemma minMatch_iff: "minMatch s = Some g \<longleftrightarrow> (\<exists>w. minForm s g w)"
proof
  assume "minMatch s = Some g"
  then have g: "g = takeWhile isDigit s" "g \<noteq> []"
    and r: "dropWhile isSpace (dropWhile isDigit s) = ''m''"
    by (auto simp: minMatch_def Let_def split: if_splits)
  define w where "w = takeWhile isSpace (dropWhile isDigit s)"
  from suffix_parts [OF r] have "dropWhile isDigit s = w @ ''m''" "spaces w"
    by (simp_all add: w_def)
  moreover from this span_parts(1) [of s isDigit] g have "s = g @ w @ ''m''" by simp
  moreover have "digits g" unfolding g digits_def by (rule span_parts)
  ultimately have "minForm s g w" using g(2) by (simp add: minForm_def)
  then show "\<exists>w. minForm s g w" ..
next
  assume "\<exists>w. minForm s g w"
  then obtain w where s: "s = g @ (w @ ''m'')" and g: "g \<noteq> []" "list_all isDigit g"
    and w: "spaces w"
    by (auto simp: minForm_def digits_def)
  have nd: "w @ ''m'' = [] \<or> \<not> isDigit (hd (w @ ''m''))"
    using w by (cases w) (auto simp: spaces_def dest: isDigit_not_isSpace)
  have t: "takeWhile isDigit s = g" "dropWhile isDigit s = w @ ''m''"
    unfolding s using g(2) nd by (rule takeWhile_span)+
  have "dropWhile isSpace (w @ ''m'') = ''m''" using w by (rule suffix_span) simp
  then show "minMatch s = Some g" using g by (simp add: minMatch_def t)
qed

lemma plainMatch_iff: "plainMatch s = Some g \<longleftrightarrow> g = s \<and> plainForm s"
  by (auto simp: plainMatch_def plainForm_def digits_def)

lemma decimalMatch_iff: "decimalMatch s = Some g \<longleftrightarrow> g = s \<and> (\<exists>a b. decimalForm s a b)"
proof
  assume "decimalMatch s = Some g"
  then have g: "g = s" and ne: "dropWhile isDigit s \<noteq> []"
    and c: "hd (dropWhile isDigit s) = CHR ''.''"
    and b: "tl (dropWhile isDigit s) \<noteq> []" "list_all isDigit (tl (dropWhile isDigit s))"
    by (auto simp: decimalMatch_def Let_def split: if_splits)
  define a where "a = takeWhile isDigit s"
  define b where "b = tl (dropWhile isDigit s)"
  from ne c have "dropWhile isDigit s = CHR ''.'' # b"
    unfolding b_def by (cases "dropWhile isDigit s") auto
  with span_parts(1) [of s isDigit] have "s = a @ ''.'' @ b" by (simp add: a_def)
  moreover have "digits a" unfolding a_def digits_def by (rule span_parts)
  ultimately have "decimalForm s a b" using b by (simp add: decimalForm_def digits_def b_def)
  with g show "g = s \<and> (\<exists>a b. decimalForm s a b)" by blast
next
  assume "g = s \<and> (\<exists>a b. decimalForm s a b)"
  then obtain a b where g: "g = s" and s: "s = a @ (CHR ''.'' # b)"
    and a: "list_all isDigit a" and b: "b \<noteq> []" "list_all isDigit b"
    by (auto simp: decimalForm_def digits_def)
  have t: "dropWhile isDigit s = CHR ''.'' # b"
    unfolding s using a by (rule takeWhile_span) simp
  show "decimalMatch s = Some g" using b g by (simp add: decimalMatch_def t)
qed

lemma hourMatch_iff: "hourMatch s = Some g \<longleftrightarrow> (\<exists>w. hourForm s g w)"
proof
  assume m: "hourMatch s = Some g"
  define ip where "ip = takeWhile isDigit s"
  define r where "r = dropWhile isDigit s"
  define fp where "fp = takeWhile isDigit (tl r)"
  have s: "s = ip @ r" and ip: "digits ip"
    unfolding ip_def r_def digits_def by (simp, rule span_parts)
  show "\<exists>w. hourForm s g w"
  proof (cases "r \<noteq> [] \<and> hd r = CHR ''.'' \<and> fp \<noteq> []")
    case True
    with m have h: "dropWhile isSpace (dropWhile isDigit (tl r)) = ''h''"
      and g: "g = ip @ CHR ''.'' # fp"
      by (auto simp: hourMatch_def Let_def ip_def r_def fp_def split: if_splits)
    define w where "w = takeWhile isSpace (dropWhile isDigit (tl r))"
    from suffix_parts [OF h] have rest: "dropWhile isDigit (tl r) = w @ ''h''" and w: "spaces w"
      by (simp_all add: w_def)
    have "tl r = fp @ w @ ''h''"
      using span_parts(1) [of "tl r" isDigit] rest by (simp add: fp_def)
    moreover from True have "r = CHR ''.'' # tl r" by (cases r) auto
    ultimately have "s = g @ w @ ''h''" using s g by simp
    moreover have "digits fp" unfolding fp_def digits_def by (rule span_parts)
    then have "decimalForm g ip fp" using ip True g by (simp add: decimalForm_def)
    ultimately have "hourForm s g w" using w by (auto simp: hourForm_def numberForm_def)
    then show ?thesis ..
  next
    case False
    with m have h: "dropWhile isSpace r = ''h''" and g: "g = ip" "ip \<noteq> []"
      by (auto simp: hourMatch_def Let_def ip_def r_def fp_def split: if_splits)
    define w where "w = takeWhile isSpace r"
    from suffix_parts [OF h] have "r = w @ ''h''" and w: "spaces w" by (simp_all add: w_def)
    then have "s = g @ w @ ''h''" using s g by simp
    then have "hourForm s g w" using w g ip by (simp add: hourForm_def numberForm_def plainForm_def)
    then show ?thesis ..
  qed
next
  assume "\<exists>w. hourForm s g w"
  then obtain w where s: "s = g @ w @ ''h''" and w: "spaces w" and n: "numberForm g"
    by (auto simp: hourForm_def)
  have nd: "w @ ''h'' = [] \<or> \<not> isDigit (hd (w @ ''h''))"
    using w by (cases w) (auto simp: spaces_def dest: isDigit_not_isSpace)
  have np: "hd (w @ ''h'') \<noteq> CHR ''.''"
    using w by (cases w) (auto simp: spaces_def)
  have sp: "dropWhile isSpace (w @ ''h'') = ''h''" using w by (rule suffix_span) simp
  from n show "hourMatch s = Some g" unfolding numberForm_def
  proof
    assume "plainForm g"
    then have g: "g \<noteq> []" "list_all isDigit g" by (simp_all add: plainForm_def digits_def)
    have t: "takeWhile isDigit s = g" "dropWhile isDigit s = w @ ''h''"
      unfolding s using g(2) nd by (rule takeWhile_span)+
    show ?thesis using g np sp by (simp add: hourMatch_def t)
  next
    assume "\<exists>a b. decimalForm g a b"
    then obtain a b where g: "g = a @ CHR ''.'' # b" and a: "list_all isDigit a"
      and b: "b \<noteq> []" "list_all isDigit b"
      by (auto simp: decimalForm_def digits_def)
    have s': "s = a @ (CHR ''.'' # b @ w @ ''h'')" by (simp add: s g)
    have t: "takeWhile isDigit s = a" "dropWhile isDigit s = CHR ''.'' # b @ w @ ''h''"
      unfolding s' using a by (rule takeWhile_span; simp)+
    have u: "takeWhile isDigit (b @ w @ ''h'') = b" "dropWhile isDigit (b @ w @ ''h'') = w @ ''h''"
      using b(2) nd by (rule takeWhile_span)+
    show ?thesis using b sp by (simp add: hourMatch_def t u g)
  qed
qed

lemma colonMatch_exclusive:
  assumes "colonMatch s \<noteq> None"
  shows "hourMatch s = None" "minMatch s = None" "plainMatch s = None" "decimalMatch s = None"
proof -
  from assms have r: "dropWhile isDigit s \<noteq> []" "hd (dropWhile isDigit s) = CHR '':''"
    by (auto simp: colonMatch_def Let_def split: if_splits)
  then obtain m where d: "dropWhile isDigit s = CHR '':'' # m"
    by (cases "dropWhile isDigit s") auto
  show "hourMatch s = None" by (simp add: hourMatch_def d)
  show "minMatch s = None" by (simp add: minMatch_def d)
  show "plainMatch s = None" using r(1) by (auto simp: plainMatch_def list_all_iff)
  show "decimalMatch s = None" by (simp add: decimalMatch_def d)
qed

lemma hourMatch_exclusive:
  assumes "hourMatch s \<noteq> None"
  shows "minMatch s = None" "plainMatch s = None" "decimalMatch s = None"
proof -
  from assms obtain g w where "hourForm s g w" by (auto simp: hourMatch_iff)
  then have s: "s = (g @ w) @ ''h''" by (simp add: hourForm_def)
  show "minMatch s = None"
  proof (rule ccontr)
    assume "minMatch s \<noteq> None"
    then obtain g' w' where "minForm s g' w'" by (auto simp: minMatch_iff)
    then have "s = (g' @ w') @ ''m''" by (simp add: minForm_def)
    with s show False by (simp only: append1_eq_conv) simp
  qed
  show "plainMatch s = None" unfolding s by (simp add: plainMatch_def)
  show "decimalMatch s = None"
  proof (rule ccontr)
    assume "decimalMatch s \<noteq> None"
    then obtain a b where "decimalForm s a b" by (auto simp: decimalMatch_iff)
    then have "s = a @ ''.'' @ b" "b \<noteq> []" "list_all isDigit b"
      by (simp_all add: decimalForm_def digits_def)
    then have "isDigit (last s)" by (simp add: list_all_iff)
    then show False unfolding s by simp
  qed
qed

lemma minMatch_exclusive:
  assumes "minMatch s \<noteq> None"
  shows "plainMatch s = None" "decimalMatch s = None"
proof -
  from assms obtain g w where "minForm s g w" by (auto simp: minMatch_iff)
  then have s: "s = (g @ w) @ ''m''" by (simp add: minForm_def)
  show "plainMatch s = None" unfolding s by (simp add: plainMatch_def)
  show "decimalMatch s = None"
  proof (rule ccontr)
    assume "decimalMatch s \<noteq> None"
    then obtain a b where "decimalForm s a b" by (auto simp: decimalMatch_iff)
    then have "s = a @ ''.'' @ b" "b \<noteq> []" "list_all isDigit b"
      by (simp_all add: decimalForm_def digits_def)
    then have "isDigit (last s)" by (simp add: list_all_iff)
    then show False unfolding s by simp
  qed
qed

lemma plainMatch_exclusive: "plainMatch s \<noteq> None \<Longrightarrow> decimalMatch s = None"
  by (auto simp: plainMatch_def decimalMatch_def list_all_iff split: if_splits)

section \<open>The parser\<close>

lemma fl_numeral: "numeral n < (2::nat) ^ 53 \<Longrightarrow> fl (numeral n) = Fin (numeral n)"
  using fl_of_nat [of "numeral n"] by simp

lemma fl_half_numeral:
  "numeral n < (2::int) ^ 53 \<Longrightarrow> fl (numeral n / 2) = Fin (numeral n / 2)"
  using fl_half [of "numeral n"] by simp

lemma fl_one_half: "fl (1 / 2) = Fin (1 / 2)"
  using fl_half [of 1] by simp

lemma fl_zero: "fl 0 = Fin 0"
  by (simp add: fl_def)

lemma fl_one: "fl 1 = Fin 1"
  using fl_of_nat [of 1] by simp

lemma floor_rat_numeral: "\<lfloor>numeral a / numeral b :: rat\<rfloor> = numeral a div numeral b"
  using floor_divide_of_int_eq [of "numeral a" "numeral b", where ?'a = rat] by simp

lemma floor_half15: "\<lfloor>of_nat n / 15 + 1 / 2 :: rat\<rfloor> = int ((n + 7) div 15)"
proof (rule floor_unique)
  define q where "q = (n + 7) div 15"
  define r where "r = (n + 7) mod 15"
  have "n + 7 = 15 * q + r" and r: "r < 15" by (simp_all add: q_def r_def)
  then have "(of_nat (n + 7) :: rat) = of_nat (15 * q + r)" by (simp only:)
  then have n: "(of_nat n :: rat) = 15 * of_nat q + of_nat r - 7" by simp
  have r': "(of_nat r :: rat) < 15" using r by (metis of_nat_less_iff of_nat_numeral)
  have r0: "(0::rat) \<le> of_nat r" by simp
  show "of_int (int q) \<le> (of_nat n / 15 + 1 / 2 :: rat)" using r0 by (simp add: n field_simps)
  show "(of_nat n / 15 + 1 / 2 :: rat) < of_int (int q) + 1" using r' by (simp add: n field_simps)
qed

lemma roundTo15_of_nat:
  assumes "n < 2 ^ 52"
  shows "roundTo15 (Fin (of_nat n)) = Fin (of_nat (15 * ((n + 7) div 15)))"
proof -
  have "(of_nat n :: rat) < of_nat (2 ^ 52)" using assms by (simp only: of_nat_less_iff)
  then have "(of_nat n :: rat) < 2 ^ 52" by simp
  moreover have "(2::nat) ^ 52 < 2 ^ 53" by simp
  with assms have "n < 2 ^ 53" by (rule less_trans)
  then have "representable (of_nat n)" by (rule representable_of_nat)
  ultimately have "roundTo15 (Fin (of_nat n)) = Fin (15 * of_int \<lfloor>of_nat n / 15 + 1 / 2 :: rat\<rfloor>)"
    by (intro roundTo15_exact)
  then show ?thesis by (simp add: floor_half15)
qed

lemma roundTo15_nat_numeral:
  "numeral n < (2::nat) ^ 52 \<Longrightarrow>
     roundTo15 (Fin (numeral n)) = Fin (of_nat (15 * ((numeral n + 7) div 15)))"
  using roundTo15_of_nat [of "numeral n"] by simp

text \<open>Rounding a value whose binary exponent is given.\<close>

lemma fl_eval:
  assumes "2 powi e \<le> x" "x < 2 powi (e + 1)" "- 1022 \<le> e" "e < 1023"
  shows "fl x = Fin (of_int (round_even (x / 2 powi (e - 52))) * 2 powi (e - 52))"
proof -
  have "(0::rat) < 2 powi e" by simp
  with assms(1) have pos: "0 < x" by linarith
  have e: "binexp x = e" using assms(1,2) by (rule binexp_unique)
  have "e + 1 \<le> 1023" using assms(4) by simp
  then have "(2::rat) powi (e + 1) \<le> 2 powi 1023" by (simp only: powi2_le_iff)
  with assms(2) have "x < 2 ^ 1023" by simp
  from fl_finite [OF pos this] show ?thesis using assms(3) by (simp add: e)
qed

lemma parseTimeInput_raw: "parseTimeInput x = map_option roundTo15 (rawMinutes x)"
  by (simp add: parseTimeInput_def rawMinutes_def Let_def split: option.splits prod.splits)

lemma parseInt_Fin: "parseInt g = Fin a \<Longrightarrow> representable a"
  by (auto simp: parseInt_def Let_def split: if_splits intro: representable_fl [rotated])

lemma parseFloat_Fin: "parseFloat g = Fin a \<Longrightarrow> representable a"
  by (auto simp: parseFloat_def Let_def split: if_splits intro!: representable_fl [rotated])

lemma times60_Fin:
  assumes "num_times w (Fin 60) = Fin v" "\<And>a. w = Fin a \<Longrightarrow> representable a"
  shows "representable v"
proof (cases w)
  case (Fin a)
  then have "0 \<le> a * 60" using assms(2) by (simp add: representable_def)
  moreover have "fl (a * 60) = Fin v" using assms(1) Fin by simp
  ultimately show ?thesis by (rule representable_fl)
qed (use assms(1) in simp_all)

lemma plus_Fin:
  assumes "num_plus w1 w2 = Fin v" "\<And>a. w1 = Fin a \<Longrightarrow> representable a"
    "\<And>a. w2 = Fin a \<Longrightarrow> representable a"
  shows "representable v"
proof (cases w1)
  case w1: (Fin a)
  show ?thesis
  proof (cases w2)
    case w2: (Fin b)
    have "0 \<le> a + b" using assms(2,3) w1 w2 by (simp add: representable_def)
    moreover have "fl (a + b) = Fin v" using assms(1) w1 w2 by simp
    ultimately show ?thesis by (rule representable_fl)
  qed (use assms(1) w1 in simp_all)
next
  case Infinity
  with assms(1) show ?thesis by (cases w2) simp_all
qed (use assms(1) in simp_all)

lemma rawMinutes_representable:
  assumes "rawMinutes x = Some (Fin v)"
  shows "representable v"
proof -
  define t where "t = trimmed x"
  note raw = assms [unfolded rawMinutes_def, folded t_def, unfolded Let_def]
  show ?thesis
  proof (cases "colonMatch t")
    case (Some p)
    obtain g1 g2 where p: "p = (g1, g2)" by (cases p)
    from raw Some p have "num_plus (num_times (parseInt g1) (Fin 60)) (parseInt g2) = Fin v"
      by (simp split: if_splits)
    then show ?thesis
    proof (rule plus_Fin)
      fix a assume "num_times (parseInt g1) (Fin 60) = Fin a"
      then show "representable a" by (rule times60_Fin) (rule parseInt_Fin)
    qed (rule parseInt_Fin)
  next
    case None
    note c = None
    show ?thesis
    proof (cases "hourMatch t")
      case (Some g)
      with raw c have "num_times (parseFloat g) (Fin 60) = Fin v" by (simp split: if_splits)
      then show ?thesis by (rule times60_Fin) (rule parseFloat_Fin)
    next
      case None
      note h = None
      show ?thesis
      proof (cases "minMatch t")
        case (Some g)
        with raw c h have "parseInt g = Fin v" by (simp split: if_splits)
        then show ?thesis by (rule parseInt_Fin)
      next
        case None
        note m = None
        show ?thesis
        proof (cases "plainMatch t")
          case (Some g)
          with raw c h m have "parseInt g = Fin v" by (simp split: if_splits)
          then show ?thesis by (rule parseInt_Fin)
        next
          case None
          with raw c h m obtain g where "num_times (parseFloat g) (Fin 60) = Fin v"
            by (auto split: if_splits option.splits)
          then show ?thesis by (rule times60_Fin) (rule parseFloat_Fin)
        qed
      qed
    qed
  qed
qed

lemma decimal_snoc: "decimal (ds @ [c]) = 10 * decimal ds + digitVal c"
  by (simp add: decimal_def)

lemma digitVal_le: "isDigit c \<Longrightarrow> digitVal c \<le> 9"
  unfolding isDigit_def digitVal_def by linarith

lemma decimal_less: "digits ds \<Longrightarrow> decimal ds < 10 ^ length ds"
proof (induction ds rule: rev_induct)
  case Nil
  show ?case by (simp add: decimal_def)
next
  case (snoc c ds)
  then have "decimal ds < 10 ^ length ds" and "digitVal c \<le> 9"
    by (simp_all add: digits_def digitVal_le)
  then show ?case by (simp add: decimal_snoc)
qed

lemma parseInt_digits:
  assumes "digits g" "g \<noteq> []"
  shows "parseInt g = fl (of_nat (decimal g))"
proof -
  have tw: "takeWhile isDigit g = g" using assms(1) by (simp add: digits_def list_all_iff)
  show ?thesis unfolding parseInt_def Let_def tw using assms(2) by simp
qed

lemma parseInt_two_digits:
  assumes "digits m" "m \<noteq> []" "length m \<le> 2"
  shows "parseInt m = Fin (of_nat (decimal m))" "decimal m < 100"
proof -
  have "decimal m < 10 ^ length m" using assms(1) by (rule decimal_less)
  also have "(10::nat) ^ length m \<le> 10 ^ 2" using assms(3) by (intro power_increasing) auto
  finally show lt: "decimal m < 100" by simp
  then have "decimal m < 2 ^ 53" by simp
  then show "parseInt m = Fin (of_nat (decimal m))"
    by (simp add: parseInt_digits [OF assms(1,2)] fl_of_nat)
qed

lemma parse_colon:
  assumes "colonMatch (trimmed x) = Some (h, m)"
  shows "parseTimeInput x =
     (if 60 \<le> decimal m then None
      else Some (roundTo15 (num_plus (num_times (fl (of_nat (decimal h))) (Fin 60))
                                    (Fin (of_nat (decimal m))))))"
proof -
  from assms have f: "colonForm (trimmed x) h m" by (simp add: colonMatch_iff)
  then have ne: "trimmed x \<noteq> []" and h: "digits h" "h \<noteq> []"
    and m: "digits m" "m \<noteq> []" "length m \<le> 2"
    by (auto simp: colonForm_def)
  note pm = parseInt_two_digits [OF m]
  have "num_ge (parseInt m) (Fin 60) \<longleftrightarrow> 60 \<le> decimal m"
    by (simp add: pm(1))
  then show ?thesis
    using ne by (simp add: parseTimeInput_def assms parseInt_digits [OF h] pm(1))
qed

lemma parse_colon_exact:
  assumes "colonMatch (trimmed x) = Some (h, m)" "decimal m < 60"
    "decimal h * 60 + decimal m < 2 ^ 52"
  shows "parseTimeInput x = Some (Fin (of_nat (15 * ((decimal h * 60 + decimal m + 7) div 15))))"
proof -
  have b: "(2::nat) ^ 52 < 2 ^ 53" by simp
  from assms(3) b have 1: "decimal h < 2 ^ 53" and 2: "decimal h * 60 < 2 ^ 53"
    and 3: "decimal h * 60 + decimal m < 2 ^ 53" by linarith+
  have "num_times (fl (of_nat (decimal h))) (Fin 60) = fl (of_nat (decimal h * 60))"
    by (simp add: fl_of_nat [OF 1])
  also have "\<dots> = Fin (of_nat (decimal h * 60))" using 2 by (rule fl_of_nat)
  finally have "num_plus (num_times (fl (of_nat (decimal h))) (Fin 60)) (Fin (of_nat (decimal m)))
      = fl (of_nat (decimal h * 60 + decimal m))"
    by simp
  also have "\<dots> = Fin (of_nat (decimal h * 60 + decimal m))" using 3 by (rule fl_of_nat)
  finally show ?thesis
    using assms(2) by (simp only: parse_colon [OF assms(1)] roundTo15_of_nat [OF assms(3)]) simp
qed

lemma parse_None_iff:
  "parseTimeInput x = None \<longleftrightarrow>
     (case colonMatch (trimmed x) of
        Some (h, m) \<Rightarrow> 60 \<le> decimal m
      | None \<Rightarrow> hourMatch (trimmed x) = None \<and> minMatch (trimmed x) = None
          \<and> plainMatch (trimmed x) = None \<and> decimalMatch (trimmed x) = None)"
proof (cases "colonMatch (trimmed x)")
  case (Some p)
  obtain h m where p: "p = (h, m)" by (cases p)
  show ?thesis using parse_colon [of x h m] Some p by simp
next
  case None
  have e: "trimmed x = [] \<Longrightarrow> hourMatch (trimmed x) = None \<and> minMatch (trimmed x) = None
      \<and> plainMatch (trimmed x) = None \<and> decimalMatch (trimmed x) = None"
    by (simp add: hourMatch_def minMatch_def plainMatch_def decimalMatch_def)
  show ?thesis
    using None e by (auto simp: parseTimeInput_def Let_def split: option.splits)
qed

lemma match_at_most_one:
  "length (filter (\<lambda>b. b) [colonMatch s \<noteq> None, hourMatch s \<noteq> None, minMatch s \<noteq> None,
     plainMatch s \<noteq> None, decimalMatch s \<noteq> None]) \<le> 1"
  using colonMatch_exclusive [of s] hourMatch_exclusive [of s] minMatch_exclusive [of s]
    plainMatch_exclusive [of s]
  by (cases "colonMatch s = None"; cases "hourMatch s = None"; cases "minMatch s = None";
      cases "plainMatch s = None"; cases "decimalMatch s = None") simp_all

lemmas str_eval = trimmed_def toLowerCase_def toLowerCase_char_def trim_def isSpace_def isDigit_def
  colonMatch_def hourMatch_def minMatch_def plainMatch_def decimalMatch_def
  parseInt_def parseFloat_def decimal_def digitVal_def Let_def char_of_def bit_0

lemmas num_eval = fl_zero fl_one fl_numeral fl_half_numeral fl_one_half roundTo15_nat_numeral

section \<open>Evaluating the parser\<close>

lemma parse_30: "parseTimeInput ''30'' = Some (Fin 30)"
  by (simp add: parseTimeInput_def str_eval num_eval)

lemma parse_30m: "parseTimeInput ''30m'' = Some (Fin 30)"
  by (simp add: parseTimeInput_def str_eval num_eval)

lemma parse_1h: "parseTimeInput ''1h'' = Some (Fin 60)"
  by (simp add: parseTimeInput_def str_eval num_eval)

lemma parse_1_5h: "parseTimeInput ''1.5h'' = Some (Fin 90)"
  by (simp add: parseTimeInput_def str_eval num_eval)

lemma parse_2_30: "parseTimeInput ''2:30'' = Some (Fin 150)"
  by (simp add: parseTimeInput_def str_eval num_eval)

lemma parse_0_5: "parseTimeInput ''0.5'' = Some (Fin 30)"
  by (simp add: parseTimeInput_def str_eval num_eval)

lemma parse_empty: "parseTimeInput '''' = None"
  by (simp add: parseTimeInput_def str_eval)

lemma parse_abc: "parseTimeInput ''abc'' = None"
  by (simp add: parseTimeInput_def str_eval)

lemma parse_7: "parseTimeInput ''7'' = Some (Fin 0)"
  by (simp add: parseTimeInput_def str_eval num_eval)

lemma parse_23: "parseTimeInput ''23'' = Some (Fin 30)"
  by (simp add: parseTimeInput_def str_eval num_eval)

lemma parse_2_75: "parseTimeInput ''2:75'' = None"
  by (simp add: parseTimeInput_def str_eval num_eval)

lemma parse_2_space_h: "parseTimeInput ''2 h'' = Some (Fin 120)"
  by (simp add: parseTimeInput_def str_eval num_eval)

lemma parse_30_space_m: "parseTimeInput ''30 m'' = Some (Fin 30)"
  by (simp add: parseTimeInput_def str_eval num_eval)

lemma parse_1h_30m: "parseTimeInput ''1h 30m'' = None"
  by (simp add: parseTimeInput_def str_eval)

lemma format_90: "formatDuration 90 = ''1h 30m''"
  by (simp add: formatDuration_def char_of_def bit_0)

text \<open>
  Beyond \<open>2 ^ 53\<close> the arithmetic of \<open>roundTo15\<close> is no longer exact: the product of the
  rounded quotient and 15 is itself rounded to binary64.
\<close>

lemma roundTo15_1e17: "roundTo15 (Fin 100000000000000000) = Fin 100000000000000000"
proof -
  have b: "fl (20000000000000000 / 3) = Fin 6666666666666667"
    using fl_eval [of 52 "20000000000000000 / 3"] by (simp add: round_even_def floor_rat_numeral)
  have c: "fl 100000000000000005 = Fin 100000000000000000"
    using fl_eval [of 56 100000000000000005] by (simp add: round_even_def floor_rat_numeral)
  show ?thesis by (simp add: roundTo15_def b c floor_rat_numeral)
qed

lemma fl_1e17: "fl 100000000000000000 = Fin 100000000000000000"
  using fl_eval [of 56 100000000000000000] by (simp add: round_even_def floor_rat_numeral)

lemma raw_1e17: "rawMinutes ''100000000000000000'' = Some (Fin 100000000000000000)"
  by (simp add: rawMinutes_def str_eval fl_1e17)

lemma parse_1e17: "parseTimeInput ''100000000000000000'' = Some (Fin 100000000000000000)"
  by (simp add: parseTimeInput_raw raw_1e17 roundTo15_1e17)

lemma roundTo15_1e16: "roundTo15 (Fin 10000000000000000) = Fin 10000000000000004"
proof -
  have b: "fl (2000000000000000 / 3) = Fin (5333333333333333 / 8)"
    using fl_eval [of 49 "2000000000000000 / 3"]
    by (simp add: round_even_def floor_rat_numeral power_int_minus)
  have c: "fl 10000000000000005 = Fin 10000000000000004"
    using fl_eval [of 53 10000000000000005] by (simp add: round_even_def floor_rat_numeral)
  show ?thesis by (simp add: roundTo15_def b c floor_rat_numeral)
qed

lemma fl_1e16: "fl 10000000000000000 = Fin 10000000000000000"
  using fl_eval [of 53 10000000000000000] by (simp add: round_even_def floor_rat_numeral)

lemma parse_1e16: "parseTimeInput ''10000000000000000'' = Some (Fin 10000000000000004)"
  by (simp add: parseTimeInput_def str_eval fl_1e16 roundTo15_1e16)

lemma parse_colon_large:
  "parseTimeInput ''150119987579017:08'' = Some (Fin 9007199254741036)"
proof -
  have a: "fl 9007199254741020 = Fin 9007199254741020"
    using fl_eval [of 53 9007199254741020] by (simp add: round_even_def floor_rat_numeral)
  have b: "fl 9007199254741028 = Fin 9007199254741028"
    using fl_eval [of 53 9007199254741028] by (simp add: round_even_def floor_rat_numeral)
  have c: "fl (9007199254741028 / 15) = Fin (1200959900632137 / 2)"
    using fl_eval [of 49 "9007199254741028 / 15"]
    by (simp add: round_even_def floor_rat_numeral power_int_minus)
  have d: "fl 9007199254741035 = Fin 9007199254741036"
    using fl_eval [of 53 9007199254741035] by (simp add: round_even_def floor_rat_numeral)
  have "roundTo15 (Fin 9007199254741028) = Fin 9007199254741036"
    by (simp add: roundTo15_def c d floor_rat_numeral)
  then show ?thesis
    by (simp add: parseTimeInput_def str_eval fl_numeral a b)
qed

section \<open>The fuzzy matcher\<close>

text \<open>
  The loop of \<open>fuzzyMatch\<close> started at positions \<open>i\<close> and \<open>queryIndex\<close> consumes the whole
  query exactly when the rest of the query is a subsequence of the rest of the text.
\<close>

lemma fuzzyLoop_subseq:
  "queryIndex \<le> length q \<Longrightarrow> i \<le> length t \<Longrightarrow>
     fuzzyLoop t q i queryIndex = length q \<longleftrightarrow> subseq (drop queryIndex q) (drop i t)"
proof (induction t q i queryIndex rule: fuzzyLoop.induct)
  case (1 t q i queryIndex)
  show ?case
  proof (cases "i < length t \<and> queryIndex < length q")
    case True
    then have t: "drop i t = t ! i # drop (i + 1) t"
      and q: "drop queryIndex q = q ! queryIndex # drop (queryIndex + 1) q"
      by (simp_all add: Cons_nth_drop_Suc)
    define queryIndex' where
      "queryIndex' = (if t ! i = q ! queryIndex then queryIndex + 1 else queryIndex)"
    have "fuzzyLoop t q i queryIndex = fuzzyLoop t q (i + 1) queryIndex'"
      using True by (subst fuzzyLoop.simps) (simp add: queryIndex'_def)
    moreover have "fuzzyLoop t q (i + 1) queryIndex' = length q
        \<longleftrightarrow> subseq (drop queryIndex' q) (drop (i + 1) t)"
      unfolding queryIndex'_def using True by (intro "1.IH") auto
    moreover have "subseq (drop queryIndex' q) (drop (i + 1) t)
        \<longleftrightarrow> subseq (drop queryIndex q) (drop i t)"
      by (simp add: t q queryIndex'_def)
    ultimately show ?thesis by simp
  next
    case False
    have r: "fuzzyLoop t q i queryIndex = queryIndex"
      by (subst fuzzyLoop.simps) (simp only: False if_False)
    show ?thesis
    proof (cases "queryIndex < length q")
      case True
      with False "1.prems" have "drop i t = []" "drop queryIndex q \<noteq> []" by simp_all
      then show ?thesis using True r by (cases "drop queryIndex q") simp_all
    next
      case False
      with "1.prems" have "queryIndex = length q" by simp
      then show ?thesis using r by simp
    qed
  qed
qed

lemma fuzzyMatch_subseq:
  "fuzzyMatch text query \<longleftrightarrow> subseq (toLowerCase query) (toLowerCase text)"
  using fuzzyLoop_subseq [of 0 "toLowerCase query" 0 "toLowerCase text"]
  by (simp add: fuzzyMatch_def)

lemma subseq_append_left: "subseq (xs @ ys) zs \<Longrightarrow> subseq xs zs"
proof -
  assume a: "subseq (xs @ ys) zs"
  have "subseq xs (xs @ ys)" by (rule subseq_rev_drop_many) simp
  from this a show ?thesis by (rule subseq_order.trans)
qed

lemma filter_filter_subseq:
  assumes "\<And>x. P x \<Longrightarrow> Q x"
  shows "subseq (filter P xs) (filter Q xs)"
proof -
  have "filter P xs = filter P (filter Q xs)" using assms by (auto intro: filter_cong)
  then show ?thesis by (metis subseq_filter_left)
qed

lemma subseq_set_mono: "subseq xs ys \<Longrightarrow> set xs \<subseteq> set ys"
  by (induction rule: list_emb.induct) auto

lemma startsWith_prefix: "startsWith s p \<longleftrightarrow> prefix p s"
  by (auto simp: startsWith_def prefix_def) (metis append_take_drop_id)

lemmas lower_eval = toLowerCase_def toLowerCase_char_def char_of_def bit_0

section \<open>The matcher on strings with Greek letters\<close>

lemma length_toLowerCase_from: "length (toLowerCase_from seen s) = length s"
  by (induction s arbitrary: seen) simp_all

lemma toLowerCase_from_no_sigma:
  "0x3A3 \<notin> set s \<Longrightarrow> toLowerCase_from seen s = map toLowerCase_unit s"
  by (induction s arbitrary: seen) simp_all

lemma toLowerCase_utf16_prefix:
  assumes "prefix q q'" "0x3A3 \<notin> set q'"
  shows "prefix (toLowerCase_utf16 q) (toLowerCase_utf16 q')"
proof -
  have "set q \<subseteq> set q'" using assms(1) by (rule set_mono_prefix)
  with assms(2) have "0x3A3 \<notin> set q" by blast
  then have "toLowerCase_utf16 q = map toLowerCase_unit q"
    unfolding toLowerCase_utf16_def by (rule toLowerCase_from_no_sigma)
  moreover have "toLowerCase_utf16 q' = map toLowerCase_unit q'"
    unfolding toLowerCase_utf16_def using assms(2) by (rule toLowerCase_from_no_sigma)
  ultimately show ?thesis using assms(1) by (simp add: map_mono_prefix)
qed

lemma fuzzyMatch_utf16_subseq:
  "fuzzyMatch_utf16 text query \<longleftrightarrow> subseq (toLowerCase_utf16 query) (toLowerCase_utf16 text)"
  using fuzzyLoop_subseq [of 0 "toLowerCase_utf16 query" 0 "toLowerCase_utf16 text"]
  by (simp add: fuzzyMatch_utf16_def)

lemma fuzzyMatch_utf16_antitone:
  assumes "prefix (toLowerCase_utf16 q) (toLowerCase_utf16 q')" "fuzzyMatch_utf16 label q'"
  shows "fuzzyMatch_utf16 label q"
proof -
  from assms(1) obtain zs where "toLowerCase_utf16 q' = toLowerCase_utf16 q @ zs"
    by (auto simp: prefix_def)
  with assms(2) show ?thesis by (auto simp: fuzzyMatch_utf16_subseq dest: subseq_append_left)
qed

lemma filteredItems_utf16_antitone:
  assumes "prefix (toLowerCase_utf16 q) (toLowerCase_utf16 q')"
  shows "subseq (filteredItems_utf16 getLabel items q') (filteredItems_utf16 getLabel items q)"
proof (cases "q = []")
  case True
  then show ?thesis by (simp add: filteredItems_utf16_def)
next
  case False
  have "length (toLowerCase_utf16 q) \<le> length (toLowerCase_utf16 q')"
    using assms by (rule prefix_length_le)
  then have "length q \<le> length q'"
    by (simp add: toLowerCase_utf16_def length_toLowerCase_from)
  with False have "q' \<noteq> []" by auto
  with False show ?thesis
    using fuzzyMatch_utf16_antitone [OF assms]
    by (simp add: filteredItems_utf16_def filter_filter_subseq)
qed

text \<open>
  On the strings of code units below U+0100 the matcher on wide strings is the matcher on
  \<^typ>\<open>string\<close>.
\<close>

lemma toLowerCase_unit_latin1:
  "n < 256 \<Longrightarrow> toLowerCase_unit n =
     (if (65 \<le> n \<and> n \<le> 90) \<or> (192 \<le> n \<and> n \<le> 222 \<and> n \<noteq> 215) then n + 32 else n)"
  by (auto simp: toLowerCase_unit_def)

lemma toLowerCase_unit_of_char: "toLowerCase_unit (of_char c) = of_char (toLowerCase_char c)"
proof -
  define n :: nat where "n = of_char c"
  have lt: "n < 256" unfolding n_def by (rule nat_of_char_less_256)
  have "(of_char (toLowerCase_char c) :: nat) =
      (if (65 \<le> n \<and> n \<le> 90) \<or> (192 \<le> n \<and> n \<le> 222 \<and> n \<noteq> 215) then n + 32 else n)"
  proof (cases "(65 \<le> n \<and> n \<le> 90) \<or> (192 \<le> n \<and> n \<le> 222 \<and> n \<noteq> 215)")
    case True
    then have "n + 32 < 256" by auto
    then have "(of_char (char_of (n + 32)) :: nat) = n + 32" by (simp add: of_char_of)
    with True show ?thesis by (simp add: toLowerCase_char_def n_def [symmetric])
  next
    case False
    then show ?thesis by (simp add: toLowerCase_char_def n_def [symmetric])
  qed
  with toLowerCase_unit_latin1 [OF lt] show ?thesis by (simp add: n_def)
qed

lemma toLowerCase_utf16_latin1:
  "toLowerCase_utf16 (map of_char s) = map of_char (toLowerCase s)"
proof -
  have "0x3A3 \<notin> set (map of_char s :: nat list)"
  proof
    assume "0x3A3 \<in> set (map of_char s :: nat list)"
    then obtain c where "(of_char c :: nat) = 0x3A3" by auto
    with nat_of_char_less_256 [of c] show False by linarith
  qed
  then have "toLowerCase_utf16 (map of_char s) = map toLowerCase_unit (map of_char s)"
    unfolding toLowerCase_utf16_def by (rule toLowerCase_from_no_sigma)
  then show ?thesis by (simp add: toLowerCase_def toLowerCase_unit_of_char)
qed

lemma subseq_map_inj:
  assumes "inj f"
  shows "subseq (map f xs) (map f ys) \<longleftrightarrow> subseq xs ys"
proof
  show "subseq xs ys" if "subseq (map f xs) (map f ys)"
    using that
  proof (induction ys arbitrary: xs)
    case Nil
    then have "subseq (map f xs) []" by simp
    then have "map f xs = []" by (rule list_emb_Nil2)
    then show ?case by simp
  next
    case (Cons y ys)
    show ?case
    proof (cases xs)
      case Nil
      then show ?thesis by simp
    next
      case (Cons x xs')
      with Cons.prems Cons.IH [of xs'] Cons.IH [of xs] assms show ?thesis
        by (auto simp: inj_eq split: if_splits)
    qed
  qed
qed (rule subseq_map)

lemma fuzzyMatch_utf16_latin1:
  "fuzzyMatch_utf16 (map of_char text) (map of_char query) \<longleftrightarrow> fuzzyMatch text query"
proof -
  have "inj (of_char :: char \<Rightarrow> nat)" by (rule injI) simp
  then show ?thesis
    by (simp add: fuzzyMatch_utf16_subseq fuzzyMatch_subseq toLowerCase_utf16_latin1 subseq_map_inj)
qed

lemmas utf16_eval = toLowerCase_utf16_def finalSigma_def cased_def caseIgnorable_def
  toLowerCase_unit_def

section \<open>The claims about the duration parser\<close>

text \<open>
  C9. The point examples of the parser: \<open>30\<close> and \<open>30m\<close> are 30 minutes, \<open>1h\<close> is 60,
  \<open>1.5h\<close> is 90, \<open>2:30\<close> is 150 and \<open>0.5\<close> is 30; the empty string and \<open>abc\<close> give the
  unparsable result \<open>None\<close>, which is a value and not an exception.
\<close>

theorem C9_point_examples:
  "parseTimeInput ''30'' = Some (Fin 30) \<and> parseTimeInput ''30m'' = Some (Fin 30)
   \<and> parseTimeInput ''1h'' = Some (Fin 60) \<and> parseTimeInput ''1.5h'' = Some (Fin 90)
   \<and> parseTimeInput ''2:30'' = Some (Fin 150) \<and> parseTimeInput ''0.5'' = Some (Fin 30)
   \<and> parseTimeInput '''' = None \<and> parseTimeInput ''abc'' = None"
  by (simp only: parse_30 parse_30m parse_1h parse_1_5h parse_2_30 parse_0_5 parse_empty
      parse_abc simp_thms)

text \<open>
  C1. Formatting a parsed duration and parsing the text again does not always give the
  duration back: \<open>1.5h\<close> parses to 90 minutes, 90 minutes are formatted as \<open>1h 30m\<close>, and
  that text matches none of the five patterns.
\<close>

theorem C1_round_trip_fails:
  "parseTimeInput ''1.5h'' = Some (Fin 90) \<and> formatDuration 90 = ''1h 30m''
   \<and> parseTimeInput (formatDuration 90) = None"
  by (simp only: parse_1_5h format_90 parse_1h_30m simp_thms)

text \<open>
  C2, as the claim states it, fails twice: 23 minutes are rounded to 30, the nearest multiple
  of 15, not to 15; and a raw value of \<open>10 ^ 17\<close> minutes comes back unchanged, although it is
  no multiple of 15.
\<close>

theorem C2_counterexample:
  "parseTimeInput ''23'' = Some (Fin 30) \<and> parseTimeInput ''23'' \<noteq> Some (Fin 15)
   \<and> rawMinutes ''100000000000000000'' = Some (Fin 100000000000000000)
   \<and> parseTimeInput ''100000000000000000'' = Some (Fin 100000000000000000)
   \<and> (100000000000000000 :: nat) mod 15 = 10"
  by (simp add: parse_23 raw_1e17 parse_1e17)

text \<open>
  C2, amended. The parser applies \<open>roundTo15\<close> to the raw minute value, and a raw value \<open>v\<close>
  below \<open>2 ^ 52\<close> is rounded to the nearest multiple of 15, a tie going up: the result is
  \<open>15 * \<lfloor>v / 15 + 1 / 2\<rfloor>\<close>, at most 7.5 away from \<open>v\<close>. In particular \<open>7\<close> gives 0 and \<open>23\<close>
  gives 30.
\<close>

theorem C2_rounds_to_nearest:
  "parseTimeInput x = map_option roundTo15 (rawMinutes x)
   \<and> (rawMinutes x = Some (Fin v) \<and> v < 2 ^ 52 \<longrightarrow>
        parseTimeInput x = Some (Fin (15 * of_int \<lfloor>v / 15 + 1 / 2\<rfloor>))
        \<and> \<bar>15 * of_int \<lfloor>v / 15 + 1 / 2\<rfloor> - v\<bar> \<le> 15 / 2)
   \<and> parseTimeInput ''7'' = Some (Fin 0) \<and> parseTimeInput ''23'' = Some (Fin 30)"
proof (intro conjI impI)
  show "parseTimeInput x = map_option roundTo15 (rawMinutes x)" by (rule parseTimeInput_raw)
  show "parseTimeInput x = Some (Fin (15 * of_int \<lfloor>v / 15 + 1 / 2\<rfloor>))"
    if "rawMinutes x = Some (Fin v) \<and> v < 2 ^ 52"
    using that rawMinutes_representable [of x v]
    by (simp add: parseTimeInput_raw roundTo15_exact)
  have "of_int \<lfloor>v / 15 + 1 / 2\<rfloor> \<le> v / 15 + 1 / 2"
    "v / 15 + 1 / 2 < of_int \<lfloor>v / 15 + 1 / 2\<rfloor> + 1"
    by linarith+
  then show "\<bar>15 * of_int \<lfloor>v / 15 + 1 / 2\<rfloor> - v\<bar> \<le> 15 / 2"
    unfolding abs_le_iff by linarith
  show "parseTimeInput ''7'' = Some (Fin 0)" by (rule parse_7)
  show "parseTimeInput ''23'' = Some (Fin 30)" by (rule parse_23)
qed

theorem C2_rounds_to_nearest_witness:
  "rawMinutes ''22'' = Some (Fin 22) \<and> (22::rat) < 2 ^ 52
   \<and> parseTimeInput ''22'' = Some (Fin 15)"
proof -
  have r: "rawMinutes ''22'' = Some (Fin 22)" by (simp add: rawMinutes_def str_eval num_eval)
  have b: "(22::rat) < 2 ^ 52" by simp
  from C2_rounds_to_nearest [of "''22''" 22] r b
  have "parseTimeInput ''22'' = Some (Fin (15 * of_int \<lfloor>22 / 15 + 1 / 2 :: rat\<rfloor>))" by blast
  then have "parseTimeInput ''22'' = Some (Fin 15)" by (simp add: floor_rat_numeral)
  with r b show ?thesis by blast
qed

text \<open>
  C3, as the claim states it, fails on white space before the suffix: \<open>2 h\<close> parses to 120
  minutes and \<open>30 m\<close> to 30, because the patterns of the hour and the minute suffix allow it.
\<close>

theorem C3_counterexample:
  "parseTimeInput ''2 h'' = Some (Fin 120) \<and> parseTimeInput ''30 m'' = Some (Fin 30)"
  by (simp only: parse_2_space_h parse_30_space_m simp_thms)

text \<open>
  C3, amended. The parser returns the unparsable result exactly when the trimmed, lower-cased
  text matches none of the five patterns, or matches the colon pattern with a minutes part of
  60 or more. At most one of the five patterns matches a text. The patterns match the five
  formats: hours, a colon and one or two digits of minutes; a number, optional white space and
  \<open>h\<close>; digits, optional white space and \<open>m\<close>; digits alone; and a decimal with digits
  after the point.
\<close>

theorem C3_unparsable:
  "(parseTimeInput x = None \<longleftrightarrow>
      (case colonMatch (trimmed x) of
         Some (h, m) \<Rightarrow> 60 \<le> decimal m
       | None \<Rightarrow> hourMatch (trimmed x) = None \<and> minMatch (trimmed x) = None
           \<and> plainMatch (trimmed x) = None \<and> decimalMatch (trimmed x) = None))
   \<and> length (filter (\<lambda>b. b) [colonMatch s \<noteq> None, hourMatch s \<noteq> None, minMatch s \<noteq> None,
        plainMatch s \<noteq> None, decimalMatch s \<noteq> None]) \<le> 1
   \<and> (colonMatch s = Some (h, m) \<longleftrightarrow> colonForm s h m)
   \<and> (hourMatch s = Some g \<longleftrightarrow> (\<exists>w. hourForm s g w))
   \<and> (minMatch s = Some g \<longleftrightarrow> (\<exists>w. minForm s g w))
   \<and> (plainMatch s = Some g \<longleftrightarrow> g = s \<and> plainForm s)
   \<and> (decimalMatch s = Some g \<longleftrightarrow> g = s \<and> (\<exists>a b. decimalForm s a b))"
  using parse_None_iff [of x] match_at_most_one [of s] colonMatch_iff [of s h m]
    hourMatch_iff [of s g] minMatch_iff [of s g] plainMatch_iff [of s g] decimalMatch_iff [of s g]
  by (intro conjI)

theorem C3_unparsable_witness:
  "parseTimeInput ''1h 30m'' = None \<and> parseTimeInput ''2:75'' = None
   \<and> colonMatch ''2:75'' = Some (''2'', ''75'') \<and> colonForm ''2:75'' ''2'' ''75''"
proof -
  have c: "colonMatch ''2:75'' = Some (''2'', ''75'')" by (simp add: str_eval)
  have 1: "parseTimeInput ''1h 30m'' = None"
    using C3_unparsable [of "''1h 30m''"] by (simp add: str_eval)
  have 2: "parseTimeInput ''2:75'' = None"
    using C3_unparsable [of "''2:75''"] by (simp add: str_eval)
  have 3: "colonForm ''2:75'' ''2'' ''75''"
    using C3_unparsable [of _ "''2:75''" "''2''" "''75''"] c by simp
  from 1 2 3 c show ?thesis by simp
qed

text \<open>
  C5, as the claim states it, fails for a long hours part: \<open>150119987579017:08\<close> is
  9007199254741028 minutes, and the parser returns 9007199254741036, which is no multiple of
  15.
\<close>

theorem C5_counterexample:
  "parseTimeInput ''150119987579017:08'' = Some (Fin 9007199254741036)
   \<and> (9007199254741036 :: nat) mod 15 = 1
   \<and> 15 * ((150119987579017 * 60 + 8 + 7) div 15) = (9007199254741035 :: nat)"
  by (simp add: parse_colon_large)

text \<open>
  C5, amended. For a text of the colon format, hours \<open>h\<close> and a minutes part \<open>m\<close> of one or
  two digits: with minutes of 60 or more the parser returns the unparsable result; with
  minutes below 60 and \<open>hours * 60 + minutes\<close> below \<open>2 ^ 52\<close> it returns that sum rounded
  to the nearest multiple of 15, which is at most 7 away from the sum. So \<open>2:75\<close> is
  unparsable and \<open>2:30\<close> is 150.
\<close>

theorem C5_colon_format:
  "(colonForm (trimmed x) h m \<longrightarrow>
      (60 \<le> decimal m \<longrightarrow> parseTimeInput x = None)
      \<and> (decimal m < 60 \<and> decimal h * 60 + decimal m < 2 ^ 52 \<longrightarrow>
           parseTimeInput x
             = Some (Fin (of_nat (15 * ((decimal h * 60 + decimal m + 7) div 15))))))
   \<and> 15 * ((n + 7) div 15) \<le> n + 7 \<and> n \<le> 15 * ((n + 7) div 15) + (7::nat)
   \<and> parseTimeInput ''2:75'' = None \<and> parseTimeInput ''2:30'' = Some (Fin 150)"
proof -
  have "parseTimeInput x = None" if "colonForm (trimmed x) h m" "60 \<le> decimal m"
    using that parse_colon [of x h m] by (simp add: colonMatch_iff)
  moreover have "parseTimeInput x
      = Some (Fin (of_nat (15 * ((decimal h * 60 + decimal m + 7) div 15))))"
    if "colonForm (trimmed x) h m" "decimal m < 60" "decimal h * 60 + decimal m < 2 ^ 52"
    using that parse_colon_exact [of x h m] by (simp add: colonMatch_iff)
  moreover have "15 * ((n + 7) div 15) \<le> n + 7" "n \<le> 15 * ((n + 7) div 15) + (7::nat)"
    by presburger+
  ultimately show ?thesis using parse_2_75 parse_2_30 by blast
qed

theorem C5_colon_format_witness:
  "colonForm (trimmed ''1:07'') ''1'' ''07'' \<and> decimal ''07'' < 60
   \<and> decimal ''1'' * 60 + decimal ''07'' < 2 ^ 52
   \<and> parseTimeInput ''1:07'' = Some (Fin 60)
   \<and> colonForm (trimmed ''1:60'') ''1'' ''60'' \<and> 60 \<le> decimal ''60''
   \<and> parseTimeInput ''1:60'' = None"
proof -
  have t: "trimmed ''1:07'' = ''1:07''" "trimmed ''1:60'' = ''1:60''" by (simp_all add: str_eval)
  have f: "colonForm ''1:07'' ''1'' ''07''" "colonForm ''1:60'' ''1'' ''60''"
    by (simp_all add: colonForm_def digits_def isDigit_def)
  have d: "decimal ''07'' = 7" "decimal ''1'' = 1" "decimal ''60'' = 60"
    by (simp_all add: decimal_def digitVal_def)
  from C5_colon_format [of "''1:07''" "''1''" "''07''"] C5_colon_format [of "''1:60''" "''1''" "''60''"]
  show ?thesis by (simp add: t f d)
qed

text \<open>
  C8, as the claim states it, fails for a long input: \<open>10000000000000000\<close> parses to
  10000000000000004, which is no multiple of 15.
\<close>

theorem C8_counterexample:
  "parseTimeInput ''10000000000000000'' = Some (Fin 10000000000000004)
   \<and> (10000000000000004 :: nat) mod 15 = 14"
  by (simp add: parse_1e16)

text \<open>
  C8, amended. Every minute value below \<open>2 ^ 53\<close> that the parser returns is a non-negative
  multiple of 15.
\<close>

theorem C8_multiple_of_15:
  assumes "parseTimeInput x = Some (Fin r)" "r < 2 ^ 53"
  shows "\<exists>k::nat. r = 15 * of_nat k"
proof -
  from assms(1) obtain w where w: "rawMinutes x = Some w" and r: "roundTo15 w = Fin r"
    by (auto simp: parseTimeInput_raw)
  have "0 \<le> v" if "w = Fin v" for v
    using rawMinutes_representable [of x v] w that by (simp add: representable_def)
  with r assms(2) show ?thesis by (rule roundTo15_multiple)
qed

theorem C8_multiple_of_15_witness:
  "parseTimeInput ''1.5h'' = Some (Fin 90) \<and> (90::rat) < 2 ^ 53
   \<and> (\<exists>k::nat. (90::rat) = 15 * of_nat k)"
proof -
  have p: "parseTimeInput ''1.5h'' = Some (Fin 90)" by (rule parse_1_5h)
  have b: "(90::rat) < 2 ^ 53" by simp
  from p b C8_multiple_of_15 [OF p b] show ?thesis by blast
qed

section \<open>The claims about the fuzzy matcher and the search select\<close>

text \<open>
  C4. With an empty query the filter returns the whole list unchanged. Otherwise it returns
  exactly the candidates whose lower-cased label contains the lower-cased query as a
  subsequence, in order and not necessarily contiguous; the result keeps the candidates in
  the order of the list (it is a subsequence of the list) and nothing is ranked.
\<close>

theorem C4_filter:
  "filteredItems getLabel items query =
     (if query = [] then items
      else filter (\<lambda>item. subseq (toLowerCase query) (toLowerCase (getLabel item))) items)
   \<and> subseq (filteredItems getLabel items query) items"
  by (simp add: filteredItems_def fuzzyMatch_subseq)

theorem C4_filter_witness:
  "map name (filteredItems name mockProjects ''ER'') = [''Vercel'', ''Linear'']
   \<and> filteredItems name mockProjects '''' = mockProjects"
proof -
  have 1: "map name (filteredItems name mockProjects ''ER'') = [''Vercel'', ''Linear'']"
    using C4_filter [of name mockProjects "''ER''"] by (simp add: mockProjects_def lower_eval)
  have 2: "filteredItems name mockProjects '''' = mockProjects"
    using C4_filter [of name mockProjects "''''"] by simp
  from 1 2 show ?thesis by simp
qed

text \<open>
  C6. The suggestion is none exactly when the match list is empty or the query is empty;
  otherwise it is the first element of the match list. For the query \<open>str\<close> against
  Anthropic, Vercel, Stripe, Linear and Figma the suggestion is Stripe.
\<close>

theorem C6_suggestion:
  "(suggestion matches query = None \<longleftrightarrow> matches = [] \<or> query = [])
   \<and> (matches \<noteq> [] \<and> query \<noteq> [] \<longrightarrow> suggestion matches query = Some (hd matches))
   \<and> map_option name (suggestion (filteredItems name mockProjects ''str'') ''str'')
       = Some ''Stripe''"
proof -
  have "filteredItems name mockProjects ''str'' = [\<lparr>ident = ''3'', name = ''Stripe''\<rparr>]"
    by (simp add: filteredItems_def fuzzyMatch_subseq mockProjects_def lower_eval)
  then show ?thesis by (auto simp: suggestion_def hd_conv_nth)
qed

theorem C6_suggestion_witness:
  "[''Vercel'', ''Linear''] \<noteq> [] \<and> ''e'' \<noteq> []
   \<and> suggestion [''Vercel'', ''Linear''] ''e'' = Some ''Vercel''
   \<and> suggestion ([] :: string list) ''e'' = None
   \<and> suggestion [''Vercel'', ''Linear''] [] = None"
  using C6_suggestion [of "[''Vercel'', ''Linear'']" "''e''"]
    C6_suggestion [of "[] :: string list" "''e''"] C6_suggestion [of "[''Vercel'', ''Linear'']" "[]"]
  by simp

text \<open>
  C7. While no item is selected, for a suggestion and a non-empty query: there is no inline
  completion unless the lower-cased label starts with the lower-cased query; when it does,
  the completion is the label without its first \<open>length query\<close> characters, in the label's
  own casing. Stripe with the query \<open>str\<close> gives \<open>ipe\<close>; the query \<open>rcl\<close> has the
  suggestion Vercel and no inline completion.
\<close>

theorem C7_inline_completion:
  "(query \<noteq> [] \<longrightarrow>
      inlineCompletion getLabel (Some item) query None =
        (if prefix (toLowerCase query) (toLowerCase (getLabel item))
         then Some (drop (length query) (getLabel item)) else None))
   \<and> inlineCompletion name (suggestion (filteredItems name mockProjects ''str'') ''str'')
        ''str'' None = Some ''ipe''
   \<and> map_option name (suggestion (filteredItems name mockProjects ''rcl'') ''rcl'')
        = Some ''Vercel''
   \<and> inlineCompletion name (suggestion (filteredItems name mockProjects ''rcl'') ''rcl'')
        ''rcl'' None = None"
proof -
  have 1: "filteredItems name mockProjects ''str'' = [\<lparr>ident = ''3'', name = ''Stripe''\<rparr>]"
    by (simp add: filteredItems_def fuzzyMatch_subseq mockProjects_def lower_eval)
  have 2: "filteredItems name mockProjects ''rcl'' = [\<lparr>ident = ''2'', name = ''Vercel''\<rparr>]"
    by (simp add: filteredItems_def fuzzyMatch_subseq mockProjects_def lower_eval)
  have 3: "inlineCompletion getLabel (Some item) query None =
        (if prefix (toLowerCase query) (toLowerCase (getLabel item))
         then Some (drop (length query) (getLabel item)) else None)" if "query \<noteq> []"
    using that
    by (simp add: inlineCompletion_def showInlineSuggestion_def suggestionLabel_def
        startsWith_prefix slice_def)
  have 4: "inlineCompletion name (Some \<lparr>ident = ''3'', name = ''Stripe''\<rparr>) ''str'' None
      = Some ''ipe''"
    by (simp add: inlineCompletion_def showInlineSuggestion_def suggestionLabel_def
        startsWith_def slice_def lower_eval)
  have 5: "inlineCompletion name (Some \<lparr>ident = ''2'', name = ''Vercel''\<rparr>) ''rcl'' None
      = None"
    by (simp add: inlineCompletion_def showInlineSuggestion_def suggestionLabel_def
        startsWith_def slice_def lower_eval)
  from 3 4 5 show ?thesis by (simp add: 1 2 suggestion_def)
qed

theorem C7_inline_completion_witness:
  "''LIN'' \<noteq> [] \<and> inlineCompletion id (Some ''Linear'') ''LIN'' None = Some ''ear''
   \<and> inlineCompletion id (Some ''Linear'') ''nr'' None = None"
proof -
  have 1: "inlineCompletion id (Some ''Linear'') ''LIN'' None = Some ''ear''"
    using C7_inline_completion [of "''LIN''" id "''Linear''"] by (simp add: lower_eval)
  have 2: "inlineCompletion id (Some ''Linear'') ''nr'' None = None"
    using C7_inline_completion [of "''nr''" id "''Linear''"] by (simp add: lower_eval)
  from 1 2 show ?thesis by simp
qed

text \<open>
  C10, as the claim states it, fails for a query that ends in a capital sigma. The query of
  the units U+0391 U+03A3 is lower-cased to U+03B1 U+03C2, with the final sigma; its extension
  by U+0391 is lower-cased to U+03B1 U+03C3 U+03B1. The label U+03B1 U+03C3 U+03B1 matches the
  longer query and not the shorter one, so typing the third character adds a candidate.
\<close>

theorem C10_counterexample:
  "prefix [0x391, 0x3A3] [0x391, 0x3A3, 0x391 :: nat]
   \<and> toLowerCase_utf16 [0x391, 0x3A3] = [0x3B1, 0x3C2]
   \<and> toLowerCase_utf16 [0x391, 0x3A3, 0x391] = [0x3B1, 0x3C3, 0x3B1]
   \<and> fuzzyMatch_utf16 [0x3B1, 0x3C3, 0x3B1] [0x391, 0x3A3, 0x391]
   \<and> \<not> fuzzyMatch_utf16 [0x3B1, 0x3C3, 0x3B1] [0x391, 0x3A3]
   \<and> filteredItems_utf16 id [[0x3B1, 0x3C3, 0x3B1]] [0x391, 0x3A3, 0x391]
       = [[0x3B1, 0x3C3, 0x3B1]]
   \<and> filteredItems_utf16 id [[0x3B1, 0x3C3, 0x3B1]] [0x391, 0x3A3] = []"
proof -
  have 1: "toLowerCase_utf16 [0x391, 0x3A3] = [0x3B1, 0x3C2]" by (simp add: utf16_eval)
  have 2: "toLowerCase_utf16 [0x391, 0x3A3, 0x391] = [0x3B1, 0x3C3, 0x3B1]"
    by (simp add: utf16_eval)
  have 3: "toLowerCase_utf16 [0x3B1, 0x3C3, 0x3B1] = [0x3B1, 0x3C3, 0x3B1]"
    by (simp add: utf16_eval)
  have 4: "fuzzyMatch_utf16 [0x3B1, 0x3C3, 0x3B1] [0x391, 0x3A3, 0x391]"
    by (simp add: fuzzyMatch_utf16_subseq 2 3)
  have 5: "\<not> fuzzyMatch_utf16 [0x3B1, 0x3C3, 0x3B1] [0x391, 0x3A3]"
    by (simp add: fuzzyMatch_utf16_subseq 1 3)
  from 1 2 4 5 show ?thesis by (simp add: filteredItems_utf16_def)
qed

text \<open>
  C10, amended. Typing more characters can only shrink the candidate set when the
  lower-cased query \<open>q\<close> is a prefix of the lower-cased query \<open>q'\<close>: then every label that
  matches \<open>q'\<close> matches \<open>q\<close>, and the filtered list for \<open>q'\<close> is a subsequence of the
  filtered list for \<open>q\<close>, so each of its candidates is in that list. This is the case for
  every extension \<open>q'\<close> of \<open>q\<close> that holds no capital sigma U+03A3.
\<close>

theorem C10_filter_antitone:
  "(prefix (toLowerCase_utf16 q) (toLowerCase_utf16 q') \<longrightarrow>
      (fuzzyMatch_utf16 label q' \<longrightarrow> fuzzyMatch_utf16 label q)
      \<and> subseq (filteredItems_utf16 getLabel items q') (filteredItems_utf16 getLabel items q)
      \<and> set (filteredItems_utf16 getLabel items q') \<subseteq> set (filteredItems_utf16 getLabel items q))
   \<and> (prefix q q' \<and> 0x3A3 \<notin> set q' \<longrightarrow>
        prefix (toLowerCase_utf16 q) (toLowerCase_utf16 q'))"
proof (intro conjI impI)
  assume p: "prefix (toLowerCase_utf16 q) (toLowerCase_utf16 q')"
  show "fuzzyMatch_utf16 label q" if "fuzzyMatch_utf16 label q'"
    using p that by (rule fuzzyMatch_utf16_antitone)
  show s: "subseq (filteredItems_utf16 getLabel items q') (filteredItems_utf16 getLabel items q)"
    using p by (rule filteredItems_utf16_antitone)
  then show "set (filteredItems_utf16 getLabel items q') \<subseteq> set (filteredItems_utf16 getLabel items q)"
    by (rule subseq_set_mono)
next
  assume "prefix q q' \<and> 0x3A3 \<notin> set q'"
  then show "prefix (toLowerCase_utf16 q) (toLowerCase_utf16 q')"
    by (simp add: toLowerCase_utf16_prefix)
qed

theorem C10_filter_antitone_witness:
  "prefix [0x45] [0x45, 0x52 :: nat] \<and> 0x3A3 \<notin> set [0x45, 0x52 :: nat]
   \<and> prefix (toLowerCase_utf16 [0x45]) (toLowerCase_utf16 [0x45, 0x52])
   \<and> fuzzyMatch_utf16 [0x56, 0x65, 0x72, 0x63, 0x65, 0x6C] [0x45, 0x52]
   \<and> fuzzyMatch_utf16 [0x56, 0x65, 0x72, 0x63, 0x65, 0x6C] [0x45]
   \<and> set (filteredItems_utf16 id [[0x56, 0x65, 0x72, 0x63, 0x65, 0x6C], [0x46, 0x69]] [0x45, 0x52])
       \<subseteq> set (filteredItems_utf16 id [[0x56, 0x65, 0x72, 0x63, 0x65, 0x6C], [0x46, 0x69]] [0x45])"
proof -
  have a: "prefix [0x45] [0x45, 0x52 :: nat] \<and> 0x3A3 \<notin> set [0x45, 0x52 :: nat]" by simp
  note c = C10_filter_antitone [of "[0x45]" "[0x45, 0x52]" "[0x56, 0x65, 0x72, 0x63, 0x65, 0x6C]"
      id "[[0x56, 0x65, 0x72, 0x63, 0x65, 0x6C], [0x46, 0x69]]"]
  from a c have p: "prefix (toLowerCase_utf16 [0x45]) (toLowerCase_utf16 [0x45, 0x52])" by blast
  have m: "fuzzyMatch_utf16 [0x56, 0x65, 0x72, 0x63, 0x65, 0x6C] [0x45, 0x52]"
    by (simp add: fuzzyMatch_utf16_subseq utf16_eval)
  from a p m c show ?thesis by blast
qed

end
